theory Spec2Isabelle
  imports Main
begin

section \<open>The fixture parser of orgdown-vscode (common/src/fixture-parser.ts)\<close>

text \<open>
  The parser turns a literate fixture file (directive lines, fixture bodies and
  expectation blocks) into a list of test cases.  The embedding below follows the
  TypeScript source function by function.

  Conventions of the embedding.
  \<^item> A JavaScript string is a \<open>string\<close>; a \<open>char\<close> stands for a UTF-16 code unit below
    256 (the Latin-1 range).  Files with code units beyond that range are outside the model.
  \<^item> A JavaScript number produced by \<open>parseInt\<close> is \<open>NaN\<close> or an integer.  Integers are
    exact here; JavaScript rounds those above \<open>2^53\<close> to the nearest double.
  \<^item> An exception is a value \<open>Inl e\<close> of a sum type.  The engine's bound on the length of a
    string (\<open>String.prototype.repeat\<close> raises a RangeError beyond it) is a resource limit
    and is not modelled.
\<close>

subsection \<open>Strings\<close>

text \<open>White space as \<open>String.prototype.trim\<close> and the regular expression class \<open>\s\<close> see it:
  tab, line feed, vertical tab, form feed, carriage return, space and no-break space.\<close>

definition isWhiteSpace :: "char \<Rightarrow> bool" where
  "isWhiteSpace c \<longleftrightarrow> (of_char c :: nat) \<in> {9, 10, 11, 12, 13, 32, 160}"

text \<open>The characters the regular expression \<open>.\<close> does not match.\<close>

definition isLineTerminator :: "char \<Rightarrow> bool" where
  "isLineTerminator c \<longleftrightarrow> (of_char c :: nat) \<in> {10, 13}"

text \<open>The classes \<open>\d\<close> and \<open>\w\<close>.\<close>

definition isDigit :: "char \<Rightarrow> bool" where
  "isDigit c \<longleftrightarrow> 48 \<le> (of_char c :: nat) \<and> (of_char c :: nat) \<le> 57"

definition isWordChar :: "char \<Rightarrow> bool" where
  "isWordChar c \<longleftrightarrow>
     (let n = (of_char c :: nat)
      in (65 \<le> n \<and> n \<le> 90) \<or> (97 \<le> n \<and> n \<le> 122) \<or> (48 \<le> n \<and> n \<le> 57) \<or> n = 95)"

definition trimStart :: "string \<Rightarrow> string" where
  "trimStart s = dropWhile isWhiteSpace s"

definition trimEnd :: "string \<Rightarrow> string" where
  "trimEnd s = rev (dropWhile isWhiteSpace (rev s))"

definition trim :: "string \<Rightarrow> string" where
  "trim s = trimEnd (trimStart s)"

definition lowerChar :: "char \<Rightarrow> char" where
  "lowerChar c =
     (let n = (of_char c :: nat)
      in if (65 \<le> n \<and> n \<le> 90) \<or> (192 \<le> n \<and> n \<le> 222 \<and> n \<noteq> 215)
         then char_of (n + 32) else c)"

definition toLowerCase :: "string \<Rightarrow> string" where
  "toLowerCase s = map lowerChar s"

definition startsWith :: "string \<Rightarrow> string \<Rightarrow> bool" where
  "startsWith s p \<longleftrightarrow> take (length p) s = p"

definition endsWith :: "string \<Rightarrow> string \<Rightarrow> bool" where
  "endsWith s p \<longleftrightarrow> length p \<le> length s \<and> drop (length s - length p) s = p"

text \<open>\<open>s.indexOf(p)\<close>; \<open>None\<close> is JavaScript's \<open>-1\<close>.\<close>

fun indexOf :: "string \<Rightarrow> string \<Rightarrow> nat option" where
  "indexOf [] p = (if p = [] then Some 0 else None)"
| "indexOf (c # cs) p =
     (if startsWith (c # cs) p then Some 0 else map_option Suc (indexOf cs p))"

text \<open>\<open>s.includes(p)\<close>.\<close>

definition includesStr :: "string \<Rightarrow> string \<Rightarrow> bool" where
  "includesStr s p \<longleftrightarrow> indexOf s p \<noteq> None"

text \<open>\<open>s.split(sep)\<close> for a separator of one character: empty pieces are kept.\<close>

fun split :: "char \<Rightarrow> string \<Rightarrow> string list" where
  "split sep [] = [[]]"
| "split sep (c # cs) =
     (if c = sep then [] # split sep cs
      else (case split sep cs of p # ps \<Rightarrow> (c # p) # ps | [] \<Rightarrow> [[c]]))"

text \<open>\<open>xs.join(sep)\<close>.\<close>

fun join :: "string \<Rightarrow> string list \<Rightarrow> string" where
  "join sep [] = []"
| "join sep [x] = x"
| "join sep (x # y # ys) = x @ sep @ join sep (y # ys)"

subsection \<open>Numbers\<close>

datatype number = NaN | Num int

definition digitsToNat :: "string \<Rightarrow> nat" where
  "digitsToNat ds = foldl (\<lambda>n c. 10 * n + ((of_char c :: nat) - 48)) 0 ds"

text \<open>\<open>parseInt(s, 10)\<close>: leading white space, an optional sign, then the longest run of
  decimal digits; \<open>NaN\<close> when that run is empty.  What follows the digits is ignored.\<close>

definition parseInt10 :: "string \<Rightarrow> number" where
  "parseInt10 s =
     (let t = trimStart s;
          neg = startsWith t ''-'';
          u = (if startsWith t ''-'' \<or> startsWith t ''+'' then drop 1 t else t);
          ds = takeWhile isDigit u
      in if ds = [] then NaN
         else Num ((if neg then - 1 else 1) * int (digitsToNat ds)))"

text \<open>\<open>s.repeat(n)\<close> for the count \<open>parseInt\<close> gave.  \<open>NaN\<close> counts as zero.  A negative count
  raises a RangeError in JavaScript; the only caller passes the value of a run of digits,
  which is never negative.\<close>

fun repeat :: "string \<Rightarrow> number \<Rightarrow> string" where
  "repeat s NaN = []"
| "repeat s (Num n) = concat (replicate (nat n) s)"

subsection \<open>processExpectedValue\<close>

text \<open>
  \<^verbatim>\<open>
  function processExpectedValue(value: string): string {
    return value
      .replace(/<sp:(\d+)>/g, (_, count) => " ".repeat(parseInt(count, 10)))
      .replace(/<tab>/g, "\t")
      .replace(/<pipe>/g, "|");
  }
  \<close>
  Three global replacements, one after the other.  A global replacement scans from left
  to right; after a match it goes on behind the match, so what it wrote is not scanned
  again by the same replacement.
\<close>

text \<open>The regular expression \<open><sp:(\d+)>\<close> at the head of a string: the digits it captured
  and the rest of the string behind the match.\<close>

definition matchSp :: "string \<Rightarrow> (string \<times> string) option" where
  "matchSp s =
     (if startsWith s ''<sp:'' then
        (let r = drop 4 s; ds = takeWhile isDigit r; r' = dropWhile isDigit r
         in if ds \<noteq> [] \<and> startsWith r' ''>'' then Some (ds, drop 1 r') else None)
      else None)"

lemma matchSp_shorter: "matchSp s = Some (ds, rest) \<Longrightarrow> length rest < length s"
proof -
  assume a: "matchSp s = Some (ds, rest)"
  then have st: "startsWith s ''<sp:''"
    by (simp add: matchSp_def split: if_splits)
  then have l4: "4 \<le> length s"
    by (auto simp: startsWith_def dest: arg_cong [where f = length])
  from a st have "rest = drop 1 (dropWhile isDigit (drop 4 s))"
    by (simp add: matchSp_def Let_def split: if_splits)
  moreover have "length (dropWhile isDigit (drop 4 s)) \<le> length (drop 4 s)"
    by (rule length_dropWhile_le)
  ultimately have "length rest \<le> length s - 4"
    by simp
  with l4 show ?thesis by simp
qed

function replaceSp :: "string \<Rightarrow> string" where
  "replaceSp [] = []"
| "replaceSp (c # cs) =
     (case matchSp (c # cs) of
        Some (count, rest) \<Rightarrow> repeat '' '' (parseInt10 count) @ replaceSp rest
      | None \<Rightarrow> c # replaceSp cs)"
  by pat_completeness auto
termination replaceSp
  by (relation "measure length") (auto dest: matchSp_shorter)

text \<open>\<open>s.replace(/p/g, r)\<close> for a pattern \<open>p\<close> that is a literal, non-empty text.\<close>

function replaceAll :: "string \<Rightarrow> string \<Rightarrow> string \<Rightarrow> string" where
  "replaceAll p r [] = []"
| "replaceAll p r (c # cs) =
     (if startsWith (c # cs) p then r @ replaceAll p r (drop (length p - 1) cs)
      else c # replaceAll p r cs)"
  by pat_completeness auto
termination replaceAll
  by (relation "measure (\<lambda>(p, r, s). length s)") auto

definition processExpectedValue :: "string \<Rightarrow> string" where
  "processExpectedValue v =
     replaceAll ''<pipe>'' ''|'' (replaceAll ''<tab>'' [CHR 0x09] (replaceSp v))"

subsection \<open>parseExpectedArgs\<close>

text \<open>
  \<^verbatim>\<open>
  function parseExpectedArgs(line: string): Map<string, string> {
    const args = new Map<string, string>();
    const regex = /:(\w+)\s+([^:]+)/g;
    let match;
    while ((match = regex.exec(line)) !== null) {
      args.set(match[1].toLowerCase(), match[2].trim());
    }
    return args;
  }
  \<close>
  \<open>matchArg\<close> is the regular expression at the head of a string: the key, the value and
  the rest behind the match.  \<open>\w+\<close> and \<open>\s+\<close> take the longest runs.  When no character
  other than a colon follows the white space, \<open>\s+\<close> gives its last character back to
  \<open>[^:]+\<close>, which needs a run of at least two white-space characters.
\<close>

definition matchArg :: "string \<Rightarrow> (string \<times> string \<times> string) option" where
  "matchArg s =
     (if startsWith s '':'' then
        (let r = drop 1 s;
             k = takeWhile isWordChar r;
             r1 = dropWhile isWordChar r;
             ws = takeWhile isWhiteSpace r1;
             r2 = dropWhile isWhiteSpace r1;
             v = takeWhile (\<lambda>c. c \<noteq> CHR '':'') r2;
             r3 = dropWhile (\<lambda>c. c \<noteq> CHR '':'') r2
         in if k = [] \<or> ws = [] then None
            else if v \<noteq> [] then Some (k, v, r3)
            else if 2 \<le> length ws then Some (k, [last ws], r2)
            else None)
      else None)"

lemma matchArg_shorter: "matchArg s = Some (k, v, rest) \<Longrightarrow> length rest < length s"
proof -
  assume a: "matchArg s = Some (k, v, rest)"
  then have st: "startsWith s '':''"
    by (simp add: matchArg_def split: if_splits)
  then have l1: "1 \<le> length s"
    by (auto simp: startsWith_def dest: arg_cong [where f = length])
  define r1 where "r1 = dropWhile isWordChar (drop 1 s)"
  define r2 where "r2 = dropWhile isWhiteSpace r1"
  have "length r1 \<le> length (drop 1 s)"
    unfolding r1_def by (rule length_dropWhile_le)
  moreover have "length r2 \<le> length r1"
    unfolding r2_def by (rule length_dropWhile_le)
  moreover have "length (dropWhile (\<lambda>c. c \<noteq> CHR '':'') r2) \<le> length r2"
    by (rule length_dropWhile_le)
  moreover from a st have "rest = dropWhile (\<lambda>c. c \<noteq> CHR '':'') r2 \<or> rest = r2"
    by (auto simp: matchArg_def Let_def r1_def r2_def split: if_splits)
  ultimately have "length rest \<le> length s - 1"
    by auto
  with l1 show ?thesis by simp
qed

function parseExpectedArgsLoop :: "string \<Rightarrow> (string \<rightharpoonup> string) \<Rightarrow> (string \<rightharpoonup> string)" where
  "parseExpectedArgsLoop [] args = args"
| "parseExpectedArgsLoop (c # cs) args =
     (case matchArg (c # cs) of
        Some (k, v, rest) \<Rightarrow> parseExpectedArgsLoop rest (args(toLowerCase k \<mapsto> trim v))
      | None \<Rightarrow> parseExpectedArgsLoop cs args)"
  by pat_completeness auto
termination parseExpectedArgsLoop
  by (relation "measure (\<lambda>(s, args). length s)") (auto dest: matchArg_shorter)

definition parseExpectedArgs :: "string \<Rightarrow> (string \<rightharpoonup> string)" where
  "parseExpectedArgs line = parseExpectedArgsLoop line Map.empty"

subsection \<open>The extent of an expectation block\<close>

text \<open>
  \<^verbatim>\<open>
    const blockContentLines: string[] = [];
    let blockEndIndex = currentIndex;
    for (let j = currentIndex + 1; j < lines.length; j++) {
      const rawLine = lines[j];
      const line = rawLine.trim();
      if (
        line.startsWith("#+NAME:") ||
        line.startsWith("#+BEGIN_FIXTURE") ||
        line.startsWith("#+EXPECTED:") ||
        (/^\*+\s/.test(line) && !line.includes("=>"))
      ) {
        blockEndIndex = j - 1;
        break;
      }
      blockContentLines.push(rawLine);
      blockEndIndex = j;
    }
  \<close>
\<close>

text \<open>The test \<open>/^\*+\s/\<close>: one or more stars, then a white-space character.\<close>

definition isHeadline :: "string \<Rightarrow> bool" where
  "isHeadline line \<longleftrightarrow>
     takeWhile (\<lambda>c. c = CHR ''*'') line \<noteq> [] \<and>
     (case dropWhile (\<lambda>c. c = CHR ''*'') line of [] \<Rightarrow> False | c # _ \<Rightarrow> isWhiteSpace c)"

text \<open>The condition of the \<open>if\<close>, on the trimmed line.\<close>

definition isBlockTerminator :: "string \<Rightarrow> bool" where
  "isBlockTerminator line \<longleftrightarrow>
     startsWith line ''#+NAME:'' \<or>
     startsWith line ''#+BEGIN_FIXTURE'' \<or>
     startsWith line ''#+EXPECTED:'' \<or>
     (isHeadline line \<and> \<not> includesStr line ''=>'')"

text \<open>The \<open>for\<close> loop from index \<open>j\<close> on, with the two variables it updates; it returns
  their final values.\<close>

function collectBlock :: "string list \<Rightarrow> nat \<Rightarrow> string list \<Rightarrow> nat \<Rightarrow> string list \<times> nat" where
  "collectBlock lines j blockContentLines blockEndIndex =
     (if j < length lines then
        (let rawLine = lines ! j; line = trim rawLine
         in if isBlockTerminator line then (blockContentLines, j - 1)
            else collectBlock lines (j + 1) (blockContentLines @ [rawLine]) j)
      else (blockContentLines, blockEndIndex))"
  by pat_completeness auto
termination collectBlock
  by (relation "measure (\<lambda>(lines, j, c, e). length lines - j)") auto

declare collectBlock.simps [simp del]

subsection \<open>The data model\<close>

text \<open>
  The interfaces of the source.  A tree of the source is a graph of objects: the array
  \<open>roots\<close> and the stack of the builder hold references to node objects, and a node holds
  references to its children.  Here a reference is an address, the index of the node in
  the list \<open>nodes\<close> of all node objects, in the order of their creation.  A \<open>ScopeNode\<close> is
  a node whose payload is an assertion (\<open>text\<close>, \<open>mustContain\<close>, \<open>mustNotContain\<close>); a
  \<open>SymbolNode\<close> is a node whose payload is a symbol (\<open>name\<close> and the four positions).
\<close>

record capture =
  capture_index :: number
  capture_value :: string

record assertion =
  text' :: string
  mustContain :: "string list"
  mustNotContain :: "string list"

record range =
  startLine :: number
  endLine :: number

record symbol =
  symbol_name :: string
  symbol_startLine :: number
  symbol_startChar :: number
  symbol_endLine :: number
  symbol_endChar :: number

record 'a node =
  payload :: 'a
  children :: "nat list"

record 'a forest =
  nodes :: "'a node list"
  roots :: "nat list"

datatype Expectation =
    RegexExpectation string bool "capture list option"
  | ScopeExpectation "assertion list" "assertion forest"
  | FoldingExpectation "range list"
  | SymbolsExpectation "symbol forest"

record FixtureTestCase =
  name :: string
  input :: string
  expectations :: "Expectation list"

datatype error =
    MissingRegexName string
  | MalformedScopeBlock

subsection \<open>The regex decoder\<close>

text \<open>
  \<^verbatim>\<open>
      let shouldMatch = true;
      const tableLines: string[] = [];
      for (const line of blockContentLines) {
        if (line.trim().toLowerCase() === "no-match") {
          shouldMatch = false;
        } else if (line.trim().startsWith("|")) {
          tableLines.push(line.trim());
        }
      }
  \<close>
\<close>

fun regexScan :: "string list \<Rightarrow> bool \<times> string list \<Rightarrow> bool \<times> string list" where
  "regexScan [] st = st"
| "regexScan (line # rest) (shouldMatch, tableLines) =
     (if toLowerCase (trim line) = ''no-match'' then regexScan rest (False, tableLines)
      else if startsWith (trim line) ''|'' then regexScan rest (shouldMatch, tableLines @ [trim line])
      else regexScan rest (shouldMatch, tableLines))"

text \<open>
  \<^verbatim>\<open>
      const captures = tableLines
        .map((line) => {
          const parts = line.split("|").map((s) => s.trim());
          if (parts.length >= 3) {
            const groupNumStr = parts[1];
            if (groupNumStr !== "Group #" && !groupNumStr.includes("---")) {
              return {
                index: parseInt(groupNumStr, 10),
                value: processExpectedValue(parts[2]),
              };
            }
          }
          return null;
        })
        .filter((item) => item !== null);
  \<close>
  \<open>captureOfRow\<close> is the function given to \<open>map\<close>, with \<open>None\<close> for \<open>null\<close>.
\<close>

definition captureOfRow :: "string \<Rightarrow> capture option" where
  "captureOfRow line =
     (let parts = map trim (split CHR ''|'' line)
      in if 3 \<le> length parts then
           (let groupNumStr = parts ! 1
            in if groupNumStr \<noteq> ''Group #'' \<and> \<not> includesStr groupNumStr ''---''
               then Some \<lparr>capture_index = parseInt10 groupNumStr,
                          capture_value = processExpectedValue (parts ! 2)\<rparr>
               else None)
         else None)"

text \<open>The branch \<open>testType === "regex"\<close>.  \<open>!regexName\<close> holds for a missing name and for
  the empty string.\<close>

definition decodeRegex :: "string \<Rightarrow> (string \<rightharpoonup> string) \<Rightarrow> string list \<Rightarrow> error + Expectation" where
  "decodeRegex expectedLine args blockContentLines =
     (case args ''name'' of
        None \<Rightarrow> Inl (MissingRegexName expectedLine)
      | Some regexName \<Rightarrow>
          if regexName = [] then Inl (MissingRegexName expectedLine)
          else
            (let (shouldMatch, tableLines) = regexScan blockContentLines (True, []);
                 captures = List.map_filter captureOfRow tableLines
             in Inr (RegexExpectation regexName shouldMatch
                       (if shouldMatch then Some captures else None))))"

subsection \<open>Trees from indentation\<close>

text \<open>
  \<^verbatim>\<open>
          while (nodeStack.length > 0 && nodeStack[nodeStack.length - 1].depth >= depth) {
            nodeStack.pop();
          }
          if (nodeStack.length === 0) {
            roots.push(node);
          } else {
            nodeStack[nodeStack.length - 1].node.children.push(node);
          }
          nodeStack.push({ depth, node });
  \<close>
  Both tree decoders run this code.  The stack is a list of pairs of a depth and the
  address of a node; its head is the top of the stack (the last element of the
  JavaScript array).
\<close>

fun popDeeper :: "nat \<Rightarrow> (nat \<times> nat) list \<Rightarrow> (nat \<times> nat) list" where
  "popDeeper depth [] = []"
| "popDeeper depth ((d, a) # nodeStack) =
     (if depth \<le> d then popDeeper depth nodeStack else (d, a) # nodeStack)"

text \<open>The new node object gets the next free address; \<open>children.push\<close> updates the node
  at the address on top of the stack.\<close>

definition insertNode ::
  "nat \<Rightarrow> 'a \<Rightarrow> 'a forest \<times> (nat \<times> nat) list \<Rightarrow> 'a forest \<times> (nat \<times> nat) list" where
  "insertNode depth p st =
     (let f = fst st;
          a = length (nodes f);
          ns = nodes f @ [\<lparr>payload = p, children = []\<rparr>];
          nodeStack = popDeeper depth (snd st)
      in case nodeStack of
           [] \<Rightarrow> (\<lparr>nodes = ns, roots = roots f @ [a]\<rparr>, [(depth, a)])
         | (d, t) # _ \<Rightarrow>
             (\<lparr>nodes = ns[t := (ns ! t)\<lparr>children := children (ns ! t) @ [a]\<rparr>],
               roots = roots f\<rparr>,
              (depth, a) # nodeStack))"

definition emptyForest :: "'a forest \<times> (nat \<times> nat) list" where
  "emptyForest = (\<lparr>nodes = [], roots = []\<rparr>, [])"

subsection \<open>The scope decoder\<close>

text \<open>\<open>line.replace(/^\s*-\s*/, "")\<close>: the line is left as it is when no dash follows the
  leading white space.\<close>

definition stripBullet :: "string \<Rightarrow> string" where
  "stripBullet line =
     (let r = dropWhile isWhiteSpace line
      in if startsWith r ''-'' then dropWhile isWhiteSpace (drop 1 r) else line)"

text \<open>
  \<^verbatim>\<open>
        if ((text.startsWith('"') && text.endsWith('"')) ||
            (text.startsWith("'") && text.endsWith("'"))) {
          text = text.slice(1, -1);
        }
  \<close>
\<close>

definition stripQuotes :: "string \<Rightarrow> string" where
  "stripQuotes t =
     (if (startsWith t [CHR 0x22] \<and> endsWith t [CHR 0x22]) \<or>
         (startsWith t [CHR 0x27] \<and> endsWith t [CHR 0x27])
      then take (length t - 2) (drop 1 t) else t)"

text \<open>
  \<^verbatim>\<open>
        right = right.replace(/\{\{\s*scopes\.([A-Za-z0-9_]+)\s*\}\}/g, (m, key) => {
          const val = (scopeModule as any)[key];
          return typeof val === "string" ? val : m;
        });
  \<close>
  The module \<open>./scoping\<close> is a parameter: the map \<open>scopes\<close> from the names it exports to
  their string values.  \<open>matchTemplate\<close> is the regular expression at the head of a
  string: the matched text, the key and the rest behind the match.
\<close>

definition matchTemplate :: "string \<Rightarrow> (string \<times> string \<times> string) option" where
  "matchTemplate s =
     (if startsWith s ''{{'' then
        (let r1 = dropWhile isWhiteSpace (drop 2 s)
         in if startsWith r1 ''scopes.'' then
              (let r2 = drop 7 r1;
                   key = takeWhile isWordChar r2;
                   r3 = dropWhile isWhiteSpace (dropWhile isWordChar r2)
               in if key \<noteq> [] \<and> startsWith r3 ''}}''
                  then Some (take (length s - length (drop 2 r3)) s, key, drop 2 r3)
                  else None)
            else None)
      else None)"

lemma matchTemplate_shorter: "matchTemplate s = Some (m, key, rest) \<Longrightarrow> length rest < length s"
proof -
  assume a: "matchTemplate s = Some (m, key, rest)"
  then have st: "startsWith s ''{{''"
    by (simp add: matchTemplate_def split: if_splits)
  then have l2: "2 \<le> length s"
    by (auto simp: startsWith_def dest: arg_cong [where f = length])
  define r1 where "r1 = dropWhile isWhiteSpace (drop 2 s)"
  define r2 where "r2 = dropWhile isWordChar (drop 7 r1)"
  define r3 where "r3 = dropWhile isWhiteSpace r2"
  have "length r1 \<le> length (drop 2 s)"
    unfolding r1_def by (rule length_dropWhile_le)
  moreover have "length r2 \<le> length (drop 7 r1)"
    unfolding r2_def by (rule length_dropWhile_le)
  moreover have "length r3 \<le> length r2"
    unfolding r3_def by (rule length_dropWhile_le)
  moreover from a st have "rest = drop 2 r3"
    by (auto simp: matchTemplate_def Let_def r1_def r2_def r3_def split: if_splits)
  ultimately have "length rest \<le> length s - 2"
    by auto
  with l2 show ?thesis by simp
qed

function resolveTemplates :: "(string \<rightharpoonup> string) \<Rightarrow> string \<Rightarrow> string" where
  "resolveTemplates scopes [] = []"
| "resolveTemplates scopes (c # cs) =
     (case matchTemplate (c # cs) of
        Some (m, key, rest) \<Rightarrow>
          (case scopes key of Some val \<Rightarrow> val | None \<Rightarrow> m) @ resolveTemplates scopes rest
      | None \<Rightarrow> c # resolveTemplates scopes cs)"
  by pat_completeness auto
termination resolveTemplates
  by (relation "measure (\<lambda>(scopes, s). length s)") (auto dest: matchTemplate_shorter)

text \<open>
  \<^verbatim>\<open>
        for (const scope of rawScopes) {
          if (scope.startsWith("!")) {
            mustNotContain.push(scope.substring(1));
          } else {
            mustContain.push(scope);
          }
        }
  \<close>
\<close>

fun classifyScopes :: "string list \<Rightarrow> string list \<times> string list \<Rightarrow> string list \<times> string list" where
  "classifyScopes [] acc = acc"
| "classifyScopes (scope # rest) (mc, mnc) =
     (if startsWith scope ''!'' then classifyScopes rest (mc, mnc @ [drop 1 scope])
      else classifyScopes rest (mc @ [scope], mnc))"

text \<open>The body of the loop over the content lines, up to the decision whether the line
  gives an assertion: \<open>None\<close> when the line is skipped (\<open>continue\<close>, or no scope is left),
  else the depth of the line and its assertion.\<close>

definition parseScopeLine :: "(string \<rightharpoonup> string) \<Rightarrow> string \<Rightarrow> (nat \<times> assertion) option" where
  "parseScopeLine scopes raw =
     (let normalized = replaceAll [CHR 0x09] ''    '' raw;
          line = normalized
      in if trim line = [] \<or> startsWith (trim line) ''#'' then None
         else
           (let depth = length (takeWhile isWhiteSpace line);
                line = stripBullet line
            in case indexOf line ''=>'' of
                 None \<Rightarrow> None
               | Some idx \<Rightarrow>
                   (let left = trim (take idx line);
                        right = trim (drop (idx + 2) line);
                        text = processExpectedValue (stripQuotes (trim left));
                        right = resolveTemplates scopes right;
                        rawScopes = filter (\<lambda>s. s \<noteq> []) (map trim (split CHR '','' right));
                        (mc, mnc) = classifyScopes rawScopes ([], [])
                    in if mc \<noteq> [] \<or> mnc \<noteq> []
                       then Some (depth, \<lparr>text' = text, mustContain = mc, mustNotContain = mnc\<rparr>)
                       else None)))"

text \<open>The loop: an assertion is appended to \<open>assertions\<close> and its node is put into the tree.\<close>

fun scopeLoop ::
  "(string \<rightharpoonup> string) \<Rightarrow> string list \<Rightarrow>
   assertion list \<times> assertion forest \<times> (nat \<times> nat) list \<Rightarrow>
   assertion list \<times> assertion forest \<times> (nat \<times> nat) list" where
  "scopeLoop scopes [] st = st"
| "scopeLoop scopes (raw # rest) (assertions, tree) =
     (case parseScopeLine scopes raw of
        None \<Rightarrow> scopeLoop scopes rest (assertions, tree)
      | Some (depth, a) \<Rightarrow>
          scopeLoop scopes rest (assertions @ [a], insertNode depth a tree))"

text \<open>
  \<^verbatim>\<open>
      const hasMeaningfulContent = blockContentLines.some((l) => {
        const t = l.trim();
        return t !== "" && !t.startsWith("#");
      });
      if (assertions.length === 0 && hasMeaningfulContent) {
        throw new Error(
          "Scope expectation block must contain lines in the format: text => scope");
      }
      allExpectations.push({ type: "scope", assertions, tree: roots });
  \<close>
\<close>

definition hasMeaningfulContent :: "string list \<Rightarrow> bool" where
  "hasMeaningfulContent blockContentLines \<longleftrightarrow>
     list_ex (\<lambda>l. trim l \<noteq> [] \<and> \<not> startsWith (trim l) ''#'') blockContentLines"

definition decodeScope :: "(string \<rightharpoonup> string) \<Rightarrow> string list \<Rightarrow> error + Expectation" where
  "decodeScope scopes blockContentLines =
     (let (assertions, tree, nodeStack) = scopeLoop scopes blockContentLines ([], emptyForest)
      in if assertions = [] \<and> hasMeaningfulContent blockContentLines
         then Inl MalformedScopeBlock
         else Inr (ScopeExpectation assertions tree))"

subsection \<open>The folding decoder\<close>

text \<open>\<open>\d+\<close> followed by the character \<open>c\<close>, at the head of a string: the digits and the
  rest behind \<open>c\<close>.\<close>

definition digitsThen :: "char \<Rightarrow> string \<Rightarrow> (string \<times> string) option" where
  "digitsThen c s =
     (let ds = takeWhile isDigit s; r = dropWhile isDigit s
      in if ds \<noteq> [] \<and> startsWith r [c] then Some (ds, drop 1 r) else None)"

lemma digitsThen_shorter: "digitsThen c s = Some (ds, rest) \<Longrightarrow> length rest < length s"
proof -
  assume a: "digitsThen c s = Some (ds, rest)"
  then have r: "rest = drop 1 (dropWhile isDigit s)"
    and n: "startsWith (dropWhile isDigit s) [c]"
    by (auto simp: digitsThen_def Let_def split: if_splits)
  from n have "dropWhile isDigit s \<noteq> []"
    by (cases "dropWhile isDigit s") (simp_all add: startsWith_def)
  then have "length rest < length (dropWhile isDigit s)"
    using r by simp
  moreover have "length (dropWhile isDigit s) \<le> length s"
    by (rule length_dropWhile_le)
  ultimately show ?thesis by simp
qed

text \<open>The regular expression \<open>\[(\d+)-(\d+)\]\<close> at the head of a string.\<close>

definition matchRange :: "string \<Rightarrow> (string \<times> string \<times> string) option" where
  "matchRange s =
     (if startsWith s ''['' then
        (case digitsThen CHR ''-'' (drop 1 s) of
           None \<Rightarrow> None
         | Some (d1, r1) \<Rightarrow>
             (case digitsThen CHR '']'' r1 of
                None \<Rightarrow> None
              | Some (d2, r2) \<Rightarrow> Some (d1, d2, r2)))
      else None)"

lemma matchRange_shorter: "matchRange s = Some (d1, d2, rest) \<Longrightarrow> length rest < length s"
  by (auto simp: matchRange_def split: if_splits option.splits
      dest!: digitsThen_shorter)

text \<open>
  \<^verbatim>\<open>
      const ranges: { startLine: number; endLine: number }[] = [];
      const content = blockContentLines.join(" ").trim();
      const rangeRegex = /\[(\d+)-(\d+)\]/g;
      let match;
      while ((match = rangeRegex.exec(content)) !== null) {
        ranges.push({
          startLine: parseInt(match[1], 10),
          endLine: parseInt(match[2], 10),
        });
      }
      allExpectations.push({ type: "folding", ranges });
  \<close>
\<close>

function foldingLoop :: "string \<Rightarrow> range list \<Rightarrow> range list" where
  "foldingLoop [] ranges = ranges"
| "foldingLoop (c # cs) ranges =
     (case matchRange (c # cs) of
        Some (d1, d2, rest) \<Rightarrow>
          foldingLoop rest (ranges @ [\<lparr>startLine = parseInt10 d1, endLine = parseInt10 d2\<rparr>])
      | None \<Rightarrow> foldingLoop cs ranges)"
  by pat_completeness auto
termination foldingLoop
  by (relation "measure (\<lambda>(s, ranges). length s)") (auto dest: matchRange_shorter)

definition decodeFolding :: "string list \<Rightarrow> Expectation" where
  "decodeFolding blockContentLines =
     (let content = trim (join '' '' blockContentLines)
      in FoldingExpectation (foldingLoop content []))"

subsection \<open>The symbols decoder\<close>

text \<open>
  The line is matched against \<open>/^\s*-\s*(.+?)\s+\((\d+):(\d+)-(\d+):(\d+)\)/\<close>.

  \<open>matchPositions\<close> is the part \<open>\s+\((\d+):(\d+)-(\d+):(\d+)\)\<close> at the head of a string.
\<close>

definition matchPositions :: "string \<Rightarrow> (string \<times> string \<times> string \<times> string) option" where
  "matchPositions s =
     (let r = dropWhile isWhiteSpace s
      in if takeWhile isWhiteSpace s \<noteq> [] \<and> startsWith r ''('' then
           (case digitsThen CHR '':'' (drop 1 r) of
              None \<Rightarrow> None
            | Some (d1, r1) \<Rightarrow>
                (case digitsThen CHR ''-'' r1 of
                   None \<Rightarrow> None
                 | Some (d2, r2) \<Rightarrow>
                     (case digitsThen CHR '':'' r2 of
                        None \<Rightarrow> None
                      | Some (d3, r3) \<Rightarrow>
                          (case digitsThen CHR '')'' r3 of
                             None \<Rightarrow> None
                           | Some (d4, r4) \<Rightarrow> Some (d1, d2, d3, d4)))))
         else None)"

text \<open>The lazy group \<open>(.+?)\<close> followed by the positions: the name grows by one character
  (any but a line terminator) until the positions match behind it.\<close>

fun lazyName :: "string \<Rightarrow> string \<Rightarrow> (string \<times> string \<times> string \<times> string \<times> string) option" where
  "lazyName acc [] = None"
| "lazyName acc (c # cs) =
     (if isLineTerminator c then None
      else (case matchPositions cs of
              Some ps \<Rightarrow> Some (acc @ [c], ps)
            | None \<Rightarrow> lazyName (acc @ [c]) cs))"

text \<open>The greedy \<open>\s*\<close> behind the dash: it takes all the white space first and gives it
  back one character at a time while the rest of the expression fails.  The first argument
  is the white space taken, the nearest character first.\<close>

fun backtrackSpace ::
  "string \<Rightarrow> string \<Rightarrow> (string \<times> string \<times> string \<times> string \<times> string) option" where
  "backtrackSpace [] rest = lazyName [] rest"
| "backtrackSpace (w # ws) rest =
     (case lazyName [] rest of
        Some m \<Rightarrow> Some m
      | None \<Rightarrow> backtrackSpace ws (w # rest))"

definition matchSymbol :: "string \<Rightarrow> (string \<times> string \<times> string \<times> string \<times> string) option" where
  "matchSymbol line =
     (let r = dropWhile isWhiteSpace line
      in if startsWith r ''-'' then
           backtrackSpace (rev (takeWhile isWhiteSpace (drop 1 r)))
             (dropWhile isWhiteSpace (drop 1 r))
         else None)"

text \<open>The body of the loop over the content lines: \<open>None\<close> when the line is skipped, else
  the depth of the line and its symbol.\<close>

definition parseSymbolLine :: "string \<Rightarrow> (nat \<times> symbol) option" where
  "parseSymbolLine raw =
     (let normalized = replaceAll [CHR 0x09] ''    '' raw;
          line = normalized
      in if trim line = [] \<or> startsWith (trim line) ''#'' then None
         else
           (let depth = length (takeWhile isWhiteSpace line)
            in case matchSymbol line of
                 None \<Rightarrow> None
               | Some (n, d1, d2, d3, d4) \<Rightarrow>
                   Some (depth,
                     \<lparr>symbol_name = trim n,
                      symbol_startLine = parseInt10 d1,
                      symbol_startChar = parseInt10 d2,
                      symbol_endLine = parseInt10 d3,
                      symbol_endChar = parseInt10 d4\<rparr>)))"

fun symbolLoop ::
  "string list \<Rightarrow> symbol forest \<times> (nat \<times> nat) list \<Rightarrow> symbol forest \<times> (nat \<times> nat) list" where
  "symbolLoop [] tree = tree"
| "symbolLoop (raw # rest) tree =
     (case parseSymbolLine raw of
        None \<Rightarrow> symbolLoop rest tree
      | Some (depth, node) \<Rightarrow> symbolLoop rest (insertNode depth node tree))"

definition decodeSymbols :: "string list \<Rightarrow> Expectation" where
  "decodeSymbols blockContentLines =
     SymbolsExpectation (fst (symbolLoop blockContentLines emptyForest))"

subsection \<open>parseExpectedBlock\<close>

text \<open>
  \<^verbatim>\<open>
    currentIndex = blockEndIndex + 1;
    while (currentIndex < lines.length && lines[currentIndex].trim() === "") {
      currentIndex++;
    }
  \<close>
\<close>

function skipBlank :: "string list \<Rightarrow> nat \<Rightarrow> nat" where
  "skipBlank lines i =
     (if i < length lines \<and> trim (lines ! i) = [] then skipBlank lines (i + 1) else i)"
  by pat_completeness auto
termination skipBlank
  by (relation "measure (\<lambda>(lines, i). length lines - i)") auto

declare skipBlank.simps [simp del]

lemma skipBlank_ge: "i \<le> skipBlank lines i"
proof (induction lines i rule: skipBlank.induct)
  case (1 lines i)
  show ?case
  proof (cases "i < length lines \<and> trim (lines ! i) = []")
    case True
    with 1 have "i + 1 \<le> skipBlank lines (i + 1)" by simp
    moreover from True have "skipBlank lines i = skipBlank lines (i + 1)"
      by (subst skipBlank.simps) simp
    ultimately show ?thesis by simp
  next
    case False
    then have "skipBlank lines i = i"
      by (subst skipBlank.simps) auto
    then show ?thesis by simp
  qed
qed

lemma collectBlock_ge: "j \<le> Suc e \<Longrightarrow> j \<le> Suc (snd (collectBlock lines j c e))"
proof (induction lines j c e rule: collectBlock.induct)
  case (1 lines j c e)
  show ?case
  proof (cases "j < length lines")
    case False
    then have "collectBlock lines j c e = (c, e)"
      by (subst collectBlock.simps) simp
    with 1 show ?thesis by simp
  next
    case True
    show ?thesis
    proof (cases "isBlockTerminator (trim (lines ! j))")
      case t: True
      with True have "collectBlock lines j c e = (c, j - 1)"
        by (subst collectBlock.simps) simp
      then show ?thesis by simp
    next
      case f: False
      with True have eq: "collectBlock lines j c e = collectBlock lines (j + 1) (c @ [lines ! j]) j"
        by (subst collectBlock.simps) (simp add: Let_def)
      from 1(1) [OF True refl refl f] have "j + 1 \<le> Suc (snd (collectBlock lines (j + 1) (c @ [lines ! j]) j))"
        by simp
      with eq show ?thesis by simp
    qed
  qed
qed

text \<open>The chain \<open>if (testType === "regex") ... else if (testType === "scope") ...\<close>: the
  expectations the block adds to \<open>allExpectations\<close> (one, or none for any other type),
  or the error it throws.\<close>

definition decodeBlock ::
  "(string \<rightharpoonup> string) \<Rightarrow> string \<Rightarrow> (string \<rightharpoonup> string) \<Rightarrow> string option \<Rightarrow> string list \<Rightarrow>
   error + Expectation list" where
  "decodeBlock scopes expectedLine args testType blockContentLines =
     (if testType = Some ''regex'' then
        (case decodeRegex expectedLine args blockContentLines of
           Inl e \<Rightarrow> Inl e | Inr x \<Rightarrow> Inr [x])
      else if testType = Some ''scope'' then
        (case decodeScope scopes blockContentLines of
           Inl e \<Rightarrow> Inl e | Inr x \<Rightarrow> Inr [x])
      else if testType = Some ''folding'' then Inr [decodeFolding blockContentLines]
      else if testType = Some ''symbols'' then Inr [decodeSymbols blockContentLines]
      else Inr [])"

text \<open>
  \<^verbatim>\<open>
  while (currentIndex < lines.length &&
         lines[currentIndex].trim().toLowerCase().startsWith("#+expected:")) {
    const expectedLine = lines[currentIndex];
    const args = parseExpectedArgs(expectedLine);
    const testType = args.get("type");
    ... the block's extent, then its decoder ...
    currentIndex = blockEndIndex + 1;
    while (currentIndex < lines.length && lines[currentIndex].trim() === "") {
      currentIndex++;
    }
  }
  return { expectations: allExpectations, endIndex: currentIndex - 1 };
  \<close>
\<close>

definition isExpectedLine :: "string list \<Rightarrow> nat \<Rightarrow> bool" where
  "isExpectedLine lines i \<longleftrightarrow>
     i < length lines \<and> startsWith (toLowerCase (trim (lines ! i))) ''#+expected:''"

function parseExpectedBlockLoop ::
  "(string \<rightharpoonup> string) \<Rightarrow> string list \<Rightarrow> nat \<Rightarrow> Expectation list \<Rightarrow>
   error + Expectation list \<times> int" where
  "parseExpectedBlockLoop scopes lines currentIndex allExpectations =
     (if isExpectedLine lines currentIndex then
        (let expectedLine = lines ! currentIndex;
             args = parseExpectedArgs expectedLine;
             testType = args ''type'';
             block = collectBlock lines (currentIndex + 1) [] currentIndex;
             blockContentLines = fst block;
             blockEndIndex = snd block
         in case decodeBlock scopes expectedLine args testType blockContentLines of
              Inl e \<Rightarrow> Inl e
            | Inr new \<Rightarrow>
                parseExpectedBlockLoop scopes lines (skipBlank lines (blockEndIndex + 1))
                  (allExpectations @ new))
      else Inr (allExpectations, int currentIndex - 1))"
  by pat_completeness auto
termination parseExpectedBlockLoop
proof (relation "measure (\<lambda>(scopes, lines, i, acc). length lines - i)", goal_cases)
  case 1
  show ?case by simp
next
  case (2 scopes lines currentIndex allExpectations expectedLine args testType block
      blockContentLines blockEndIndex new)
  have "currentIndex + 1 \<le> Suc (snd (collectBlock lines (currentIndex + 1) [] currentIndex))"
    by (rule collectBlock_ge) simp
  with 2 have "currentIndex < blockEndIndex + 1" by simp
  also have "\<dots> \<le> skipBlank lines (blockEndIndex + 1)" by (rule skipBlank_ge)
  finally show ?case
    using 2 by (simp add: isExpectedLine_def diff_less_mono2)
qed

declare parseExpectedBlockLoop.simps [simp del]

definition parseExpectedBlock ::
  "(string \<rightharpoonup> string) \<Rightarrow> string list \<Rightarrow> nat \<Rightarrow> error + Expectation list \<times> int" where
  "parseExpectedBlock scopes lines startIndex = parseExpectedBlockLoop scopes lines startIndex []"

subsection \<open>parseFixtureFile\<close>

text \<open>\<open>line.replace(/^\s*#\+name:/i, "")\<close>.\<close>

definition removeNameDirective :: "string \<Rightarrow> string" where
  "removeNameDirective line =
     (let r = dropWhile isWhiteSpace line
      in if toLowerCase (take 7 r) = ''#+name:'' then drop 7 r else line)"

text \<open>
  \<^verbatim>\<open>
    let contentEndIndex = -1;
    for (let j = contentStartIndex; j < lines.length; j++) {
      if (lines[j].trim().toLowerCase().startsWith("#+end_fixture")) {
        contentEndIndex = j;
        break;
      }
    }
  \<close>
  \<open>None\<close> is the value \<open>-1\<close>.
\<close>

definition isEndLine :: "string list \<Rightarrow> nat \<Rightarrow> bool" where
  "isEndLine lines j \<longleftrightarrow>
     j < length lines \<and> startsWith (toLowerCase (trim (lines ! j))) ''#+end_fixture''"

function findEndFixture :: "string list \<Rightarrow> nat \<Rightarrow> nat option" where
  "findEndFixture lines j =
     (if j < length lines then
        (if isEndLine lines j then Some j else findEndFixture lines (j + 1))
      else None)"
  by pat_completeness auto
termination findEndFixture
  by (relation "measure (\<lambda>(lines, j). length lines - j)") auto

declare findEndFixture.simps [simp del]

lemma findEndFixture_ge: "findEndFixture lines j = Some e \<Longrightarrow> j \<le> e \<and> e < length lines"
proof (induction lines j rule: findEndFixture.induct)
  case (1 lines j)
  from "1.prems" have lt: "j < length lines"
    by (subst (asm) findEndFixture.simps) (simp split: if_splits)
  show ?case
  proof (cases "isEndLine lines j")
    case True
    with lt "1.prems" have "e = j"
      by (subst (asm) findEndFixture.simps) simp
    with lt show ?thesis by simp
  next
    case False
    with lt "1.prems" have "findEndFixture lines (j + 1) = Some e"
      by (subst (asm) findEndFixture.simps) simp
    from "1.IH" [OF lt False this] show ?thesis by simp
  qed
qed

text \<open>
  \<^verbatim>\<open>
      const match = line.match(/^(\s*),(.*)/);
      if (match) {
        return match[1] + match[2];
      }
      return line;
  \<close>
  \<open>.*\<close> stops at a line terminator, and what follows it is not part of the match.
\<close>

definition stripComma :: "string \<Rightarrow> string" where
  "stripComma line =
     (let r = dropWhile isWhiteSpace line
      in if startsWith r '','' then
           takeWhile isWhiteSpace line @ takeWhile (\<lambda>c. \<not> isLineTerminator c) (drop 1 r)
         else line)"

lemma parseExpectedBlockLoop_end:
  "parseExpectedBlockLoop scopes lines i acc = Inr (exps, e) \<Longrightarrow> int i - 1 \<le> e"
proof (induction scopes lines i acc rule: parseExpectedBlockLoop.induct)
  case (1 scopes lines i acc)
  show ?case
  proof (cases "isExpectedLine lines i")
    case False
    with "1.prems" show ?thesis
      by (subst (asm) parseExpectedBlockLoop.simps) simp
  next
    case True
    define block where "block = collectBlock lines (i + 1) [] i"
    define d where "d = decodeBlock scopes (lines ! i) (parseExpectedArgs (lines ! i))
      (parseExpectedArgs (lines ! i) ''type'') (fst block)"
    from True "1.prems" obtain new where new: "d = Inr new"
      and rec: "parseExpectedBlockLoop scopes lines (skipBlank lines (snd block + 1)) (acc @ new)
        = Inr (exps, e)"
      by (subst (asm) parseExpectedBlockLoop.simps)
        (auto simp: Let_def block_def d_def split: sum.splits)
    from "1.IH" [OF True refl refl refl block_def refl refl new [unfolded d_def] rec]
    have "int (skipBlank lines (snd block + 1)) - 1 \<le> e" .
    moreover have "i + 1 \<le> Suc (snd block)"
      unfolding block_def by (rule collectBlock_ge) simp
    moreover have "snd block + 1 \<le> skipBlank lines (snd block + 1)"
      by (rule skipBlank_ge)
    ultimately show ?thesis by simp
  qed
qed

lemma scan_decreases_plain:
  assumes "i < length lines" and "findEndFixture lines (Suc (Suc i)) = Some e"
  shows "length lines - Suc e < length lines - i"
proof -
  from assms(2) have "Suc (Suc i) \<le> e"
    by (auto dest: findEndFixture_ge)
  with assms(1) show ?thesis by (simp add: diff_less_mono2)
qed

lemma scan_decreases_expected:
  assumes "i < length lines" and "findEndFixture lines (Suc (Suc i)) = Some e"
    and "parseExpectedBlock scopes lines (skipBlank lines (Suc e)) = Inr (exps, endIndex)"
  shows "length lines - nat (endIndex + 1) < length lines - i"
proof -
  from assms(2) have "Suc (Suc i) \<le> e"
    by (auto dest: findEndFixture_ge)
  then have "i < Suc e" by simp
  also have "\<dots> \<le> skipBlank lines (Suc e)"
    by (rule skipBlank_ge)
  finally have "i < skipBlank lines (Suc e)" .
  moreover from assms(3) have "int (skipBlank lines (Suc e)) - 1 \<le> endIndex"
    by (auto simp: parseExpectedBlock_def dest: parseExpectedBlockLoop_end)
  ultimately have "i < nat (endIndex + 1)" by simp
  with assms(1) show ?thesis by (simp add: diff_less_mono2)
qed

text \<open>
  The loop \<open>for (let i = 0; i < lines.length; i++)\<close> of \<open>parseFixtureFile\<close>, from index
  \<open>i\<close> on, with the array \<open>tests\<close> built so far.  An error thrown by \<open>parseExpectedBlock\<close>
  leaves the function; nothing of \<open>tests\<close> is returned then.
  \<^verbatim>\<open>
    const line = lines[i];
    if (!line.trim().toLowerCase().startsWith("#+name:")) { continue; }
    const testName = line.replace(/^\s*#\+name:/i, "").trim();
    const containerStartLine = i + 1;
    if (containerStartLine >= lines.length ||
        !lines[containerStartLine].trim().toLowerCase().startsWith("#+begin_fixture")) {
      continue;
    }
    const contentStartIndex = containerStartLine + 1;
    ... contentEndIndex ...
    if (contentEndIndex === -1) { continue; }
    const fixtureLines = lines.slice(contentStartIndex, contentEndIndex);
    const processedLines = fixtureLines.map(...);
    const input = processedLines.join("\n");
    i = contentEndIndex;
    let lookaheadIndex = i + 1;
    while (lookaheadIndex < lines.length && lines[lookaheadIndex].trim() === "") {
      lookaheadIndex++;
    }
    if (lookaheadIndex < lines.length &&
        lines[lookaheadIndex].trim().toLowerCase().startsWith("#+expected:")) {
      const { expectations, endIndex } = parseExpectedBlock(lines, lookaheadIndex);
      tests.push({ name: testName, input, expectations });
      i = endIndex;
    }
  \<close>
\<close>

definition isNameLine :: "string list \<Rightarrow> nat \<Rightarrow> bool" where
  "isNameLine lines i \<longleftrightarrow>
     i < length lines \<and> startsWith (toLowerCase (trim (lines ! i))) ''#+name:''"

definition isBeginLine :: "string list \<Rightarrow> nat \<Rightarrow> bool" where
  "isBeginLine lines i \<longleftrightarrow>
     i < length lines \<and> startsWith (toLowerCase (trim (lines ! i))) ''#+begin_fixture''"

function scan ::
  "(string \<rightharpoonup> string) \<Rightarrow> string list \<Rightarrow> nat \<Rightarrow> FixtureTestCase list \<Rightarrow>
   error + FixtureTestCase list" where
  "scan scopes lines i tests =
     (if i < length lines then
        (if \<not> isNameLine lines i then scan scopes lines (i + 1) tests
         else
           (let testName = trim (removeNameDirective (lines ! i));
                containerStartLine = i + 1
            in if \<not> isBeginLine lines containerStartLine then scan scopes lines (i + 1) tests
               else
                 (let contentStartIndex = containerStartLine + 1
                  in case findEndFixture lines contentStartIndex of
                       None \<Rightarrow> scan scopes lines (i + 1) tests
                     | Some contentEndIndex \<Rightarrow>
                         (let fixtureLines =
                                take (contentEndIndex - contentStartIndex)
                                  (drop contentStartIndex lines);
                              processedLines = map stripComma fixtureLines;
                              inputText = join [CHR 0x0A] processedLines;
                              lookaheadIndex = skipBlank lines (contentEndIndex + 1)
                          in if isExpectedLine lines lookaheadIndex then
                               (case parseExpectedBlock scopes lines lookaheadIndex of
                                  Inl e \<Rightarrow> Inl e
                                | Inr (exps, endIndex) \<Rightarrow>
                                    scan scopes lines (nat (endIndex + 1))
                                      (tests @ [\<lparr>name = testName, input = inputText,
                                                 expectations = exps\<rparr>]))
                             else scan scopes lines (contentEndIndex + 1) tests))))
      else Inr tests)"
  by pat_completeness auto
termination scan
  by (relation "measure (\<lambda>(scopes, lines, i, tests). length lines - i)")
    (auto intro: scan_decreases_expected scan_decreases_plain)

declare scan.simps [simp del]

text \<open>
  \<^verbatim>\<open>
  export function parseFixtureFile(content: string): FixtureTestCase[] {
    const tests: FixtureTestCase[] = [];
    const lines = content.split("\n");
    for (let i = 0; i < lines.length; i++) { ... }
    return tests;
  }
  \<close>
\<close>

definition parseFixtureFile :: "(string \<rightharpoonup> string) \<Rightarrow> string \<Rightarrow> error + FixtureTestCase list" where
  "parseFixtureFile scopes content = scan scopes (split CHR 0x0A content) 0 []"

section \<open>Notions of the specification\<close>

text \<open>The definitions of this section are not taken from the source: they name what the
  claims speak about, for the statements of the theorems.\<close>

text \<open>The line \<open>no-match\<close>, in any case and with white space around it.\<close>

definition isNoMatch :: "string \<Rightarrow> bool" where
  "isNoMatch l \<longleftrightarrow> toLowerCase (trim l) = ''no-match''"

text \<open>The cells of a table row: the pieces between the bars, trimmed.\<close>

definition cells :: "string \<Rightarrow> string list" where
  "cells row = map trim (split CHR ''|'' row)"

text \<open>A row that gives a capture: at least three cells, and a second cell that is neither
  the header label nor a separator of dashes.\<close>

definition isCaptureRow :: "string \<Rightarrow> bool" where
  "isCaptureRow row \<longleftrightarrow>
     3 \<le> length (cells row) \<and> cells row ! 1 \<noteq> ''Group #'' \<and> \<not> includesStr (cells row ! 1) ''---''"

definition captureOf :: "string \<Rightarrow> capture" where
  "captureOf row =
     \<lparr>capture_index = parseInt10 (cells row ! 1),
      capture_value = processExpectedValue (cells row ! 2)\<rparr>"

text \<open>A decimal integer: one or more digits.\<close>

definition isDecimal :: "string \<Rightarrow> bool" where
  "isDecimal s \<longleftrightarrow> s \<noteq> [] \<and> list_all isDigit s"

text \<open>
  The Value Normalizer as the specification describes it: one pass over the string, from
  left to right, in which every token \<open><sp:N>\<close>, \<open><tab>\<close> and \<open><pipe>\<close> is replaced and
  the scan goes on behind the token.  Nothing that was written is read again.
\<close>

function expandTokens :: "string \<Rightarrow> string" where
  "expandTokens [] = []"
| "expandTokens (c # cs) =
     (case matchSp (c # cs) of
        Some (count, rest) \<Rightarrow> repeat '' '' (parseInt10 count) @ expandTokens rest
      | None \<Rightarrow>
          if startsWith (c # cs) ''<tab>'' then CHR 0x09 # expandTokens (drop 4 cs)
          else if startsWith (c # cs) ''<pipe>'' then CHR ''|'' # expandTokens (drop 5 cs)
          else c # expandTokens cs)"
  by pat_completeness auto
termination expandTokens
  by (relation "measure length") (auto dest: matchSp_shorter)

text \<open>No token \<open><sp:N>\<close> of the string has the value zero.\<close>

fun noEmptySp :: "string \<Rightarrow> bool" where
  "noEmptySp [] = True"
| "noEmptySp (c # cs) =
     ((case matchSp (c # cs) of
         Some (count, rest) \<Rightarrow> parseInt10 count \<noteq> Num 0
       | None \<Rightarrow> True) \<and> noEmptySp cs)"

text \<open>The tree that the builder makes of a list of lines, each given by its depth and its
  payload: the lines are inserted one after the other, starting from nothing.\<close>

definition buildTree :: "(nat \<times> 'a) list \<Rightarrow> 'a forest \<times> (nat \<times> nat) list" where
  "buildTree entries = foldl (\<lambda>st (depth, p). insertNode depth p st) emptyForest entries"

text \<open>The nearest line before line \<open>k\<close> whose depth is strictly smaller than \<open>d\<close>: the
  search walks back from \<open>k\<close>.  \<open>parentIndex ds k\<close> is the nearest line before line \<open>k\<close> that
  is strictly shallower than line \<open>k\<close>, when \<open>ds\<close> are the depths of the lines.\<close>

fun nearestShallower :: "nat list \<Rightarrow> nat \<Rightarrow> nat \<Rightarrow> nat option" where
  "nearestShallower ds d 0 = None"
| "nearestShallower ds d (Suc j) = (if ds ! j < d then Some j else nearestShallower ds d j)"

definition parentIndex :: "nat list \<Rightarrow> nat \<Rightarrow> nat option" where
  "parentIndex ds k = nearestShallower ds (ds ! k) k"

text \<open>The lines of a block that give a node, with their depths, in the order of the
  block.\<close>

definition scopeEntries :: "(string \<rightharpoonup> string) \<Rightarrow> string list \<Rightarrow> (nat \<times> assertion) list" where
  "scopeEntries scopes content = List.map_filter (parseScopeLine scopes) content"

definition symbolEntries :: "string list \<Rightarrow> (nat \<times> symbol) list" where
  "symbolEntries content = List.map_filter parseSymbolLine content"

text \<open>What holds of the builder after the lines \<open>es\<close>: the node at address \<open>k\<close> is line \<open>k\<close>;
  the children of a node are the lines whose parent it is, the roots the lines without a
  parent; the stack holds lines with their depths, deeper and later lines on top, and every
  line is covered by an entry of the stack that is not before it and not deeper.\<close>

definition treeInv :: "(nat \<times> 'a) list \<Rightarrow> 'a forest \<times> (nat \<times> nat) list \<Rightarrow> bool" where
  "treeInv es st \<longleftrightarrow>
     length (nodes (fst st)) = length es \<and>
     (\<forall>k<length es. payload (nodes (fst st) ! k) = snd (es ! k)) \<and>
     (\<forall>j<length es. children (nodes (fst st) ! j) =
        filter (\<lambda>k. parentIndex (map fst es) k = Some j) [0..<length es]) \<and>
     roots (fst st) = filter (\<lambda>k. parentIndex (map fst es) k = None) [0..<length es] \<and>
     (\<forall>x\<in>set (snd st). snd x < length es \<and> fst x = map fst es ! snd x) \<and>
     sorted_wrt (\<lambda>x y. fst y < fst x \<and> snd y < snd x) (snd st) \<and>
     (\<forall>m<length es. \<exists>x\<in>set (snd st). m \<le> snd x \<and> fst x \<le> map fst es ! m)"

section \<open>Properties\<close>

subsection \<open>A directive of an unknown type\<close>

lemma parseExpectedBlockLoop_step:
  assumes "isExpectedLine lines i"
    and "decodeBlock scopes (lines ! i) (parseExpectedArgs (lines ! i))
           (parseExpectedArgs (lines ! i) ''type'') (fst (collectBlock lines (i + 1) [] i)) = Inr new"
  shows "parseExpectedBlockLoop scopes lines i acc =
         parseExpectedBlockLoop scopes lines
           (skipBlank lines (snd (collectBlock lines (i + 1) [] i) + 1)) (acc @ new)"
  using assms by (subst parseExpectedBlockLoop.simps) (simp add: Let_def)

lemma parseExpectedBlockLoop_error:
  assumes "isExpectedLine lines i"
    and "decodeBlock scopes (lines ! i) (parseExpectedArgs (lines ! i))
           (parseExpectedArgs (lines ! i) ''type'') (fst (collectBlock lines (i + 1) [] i)) = Inl e"
  shows "parseExpectedBlockLoop scopes lines i acc = Inl e"
  using assms by (subst parseExpectedBlockLoop.simps) (simp add: Let_def)

lemma parseExpectedBlockLoop_stop:
  "\<not> isExpectedLine lines i \<Longrightarrow> parseExpectedBlockLoop scopes lines i acc = Inr (acc, int i - 1)"
  by (subst parseExpectedBlockLoop.simps) simp

text \<open>
  Claim C10.  An \<open>#+EXPECTED:\<close> directive whose \<open>:type\<close> argument is absent or is none of
  \<open>regex\<close>, \<open>scope\<close>, \<open>folding\<close>, \<open>symbols\<close> raises no error and adds no expectation: its
  block decodes to nothing, whatever its content, and the loop goes on behind the block
  (and the blank lines after it) with the expectations it had.
\<close>

theorem unknown_type_adds_nothing:
  assumes "isExpectedLine lines i"
    and "parseExpectedArgs (lines ! i) ''type'' \<notin>
           {Some ''regex'', Some ''scope'', Some ''folding'', Some ''symbols''}"
  shows "decodeBlock scopes (lines ! i) (parseExpectedArgs (lines ! i))
           (parseExpectedArgs (lines ! i) ''type'') content = Inr [] \<and>
         parseExpectedBlockLoop scopes lines i acc =
         parseExpectedBlockLoop scopes lines
           (skipBlank lines (snd (collectBlock lines (i + 1) [] i) + 1)) acc"
proof -
  from assms(2) have d: "\<And>c. decodeBlock scopes (lines ! i) (parseExpectedArgs (lines ! i))
      (parseExpectedArgs (lines ! i) ''type'') c = Inr []"
    by (simp add: decodeBlock_def)
  from parseExpectedBlockLoop_step [OF assms(1) d] d show ?thesis
    by simp
qed

theorem unknown_type_adds_nothing_witness:
  "isExpectedLine [''#+EXPECTED: :type bogus'', ''junk'', [], ''#+EXPECTED: :type folding'', ''[1-2]''] 0 \<and>
   parseExpectedArgs ''#+EXPECTED: :type bogus'' ''type'' = Some ''bogus'' \<and>
   parseExpectedBlockLoop Map.empty
     [''#+EXPECTED: :type bogus'', ''junk'', [], ''#+EXPECTED: :type folding'', ''[1-2]''] 0 [] =
   Inr ([FoldingExpectation [\<lparr>startLine = Num 1, endLine = Num 2\<rparr>]], 4)"
proof -
  let ?L = "[''#+EXPECTED: :type bogus'', ''junk'', [], ''#+EXPECTED: :type folding'', ''[1-2]'']"
  have h1: "isExpectedLine ?L 0" by code_simp
  have ty: "parseExpectedArgs (?L ! 0) ''type'' = Some ''bogus''" by code_simp
  then have h2: "parseExpectedArgs (?L ! 0) ''type'' \<notin>
      {Some ''regex'', Some ''scope'', Some ''folding'', Some ''symbols''}"
    by simp
  have next_index: "skipBlank ?L (snd (collectBlock ?L (0 + 1) [] 0) + 1) = 3" by code_simp
  have rest: "parseExpectedBlockLoop Map.empty ?L 3 [] =
      Inr ([FoldingExpectation [\<lparr>startLine = Num 1, endLine = Num 2\<rparr>]], 4)"
    by code_simp
  from unknown_type_adds_nothing [OF h1 h2, of Map.empty "[]" "[]"]
  have "parseExpectedBlockLoop Map.empty ?L 0 [] =
      parseExpectedBlockLoop Map.empty ?L
        (skipBlank ?L (snd (collectBlock ?L (0 + 1) [] 0) + 1)) []"
    by (rule conjunct2)
  with next_index rest have "parseExpectedBlockLoop Map.empty ?L 0 [] =
      Inr ([FoldingExpectation [\<lparr>startLine = Num 1, endLine = Num 2\<rparr>]], 4)"
    by simp
  with h1 ty show ?thesis by simp
qed

subsection \<open>The steps of the scan\<close>

lemma scan_done: "\<not> i < length lines \<Longrightarrow> scan scopes lines i tests = Inr tests"
  by (subst scan.simps) simp

lemma scan_skip:
  "i < length lines \<Longrightarrow> \<not> isNameLine lines i \<Longrightarrow>
   scan scopes lines i tests = scan scopes lines (i + 1) tests"
  by (subst scan.simps) simp

lemma scan_no_begin:
  "isNameLine lines i \<Longrightarrow> \<not> isBeginLine lines (i + 1) \<Longrightarrow>
   scan scopes lines i tests = scan scopes lines (i + 1) tests"
  by (subst scan.simps) (simp add: isNameLine_def Let_def)

lemma scan_unmatched:
  "isNameLine lines i \<Longrightarrow> isBeginLine lines (i + 1) \<Longrightarrow>
   findEndFixture lines (i + 2) = None \<Longrightarrow>
   scan scopes lines i tests = scan scopes lines (i + 1) tests"
  by (subst scan.simps) (simp add: isNameLine_def Let_def)

lemma scan_plain:
  "isNameLine lines i \<Longrightarrow> isBeginLine lines (i + 1) \<Longrightarrow>
   findEndFixture lines (i + 2) = Some e \<Longrightarrow>
   \<not> isExpectedLine lines (skipBlank lines (e + 1)) \<Longrightarrow>
   scan scopes lines i tests = scan scopes lines (e + 1) tests"
  by (subst scan.simps) (simp add: isNameLine_def Let_def)

lemma scan_expected:
  "isNameLine lines i \<Longrightarrow> isBeginLine lines (i + 1) \<Longrightarrow>
   findEndFixture lines (i + 2) = Some e \<Longrightarrow>
   isExpectedLine lines (skipBlank lines (e + 1)) \<Longrightarrow>
   parseExpectedBlock scopes lines (skipBlank lines (e + 1)) = Inr (exps, endIndex) \<Longrightarrow>
   scan scopes lines i tests =
   scan scopes lines (nat (endIndex + 1))
     (tests @ [\<lparr>name = trim (removeNameDirective (lines ! i)),
                input = join [CHR 0x0A] (map stripComma (take (e - (i + 2)) (drop (i + 2) lines))),
                expectations = exps\<rparr>])"
  by (subst scan.simps) (simp add: isNameLine_def Let_def)

lemma scan_error:
  "isNameLine lines i \<Longrightarrow> isBeginLine lines (i + 1) \<Longrightarrow>
   findEndFixture lines (i + 2) = Some e \<Longrightarrow>
   isExpectedLine lines (skipBlank lines (e + 1)) \<Longrightarrow>
   parseExpectedBlock scopes lines (skipBlank lines (e + 1)) = Inl err \<Longrightarrow>
   scan scopes lines i tests = Inl err"
  by (subst scan.simps) (simp add: isNameLine_def Let_def)


lemma findEndFixture_first:
  assumes "j \<le> e" and "isEndLine lines e" and "\<forall>k. j \<le> k \<and> k < e \<longrightarrow> \<not> isEndLine lines k"
  shows "findEndFixture lines j = Some e"
  using assms
proof (induction "e - j" arbitrary: j)
  case 0
  then have "j = e" by simp
  with "0.prems"(2) show ?case
    by (subst findEndFixture.simps) (simp add: isEndLine_def)
next
  case (Suc n)
  then have lt: "j < e" by simp
  with Suc.prems have no: "\<not> isEndLine lines j" by simp
  from lt Suc.prems(2) have len: "j < length lines" by (simp add: isEndLine_def)
  from Suc.hyps(2) have "n = e - (j + 1)" by simp
  moreover from lt have "j + 1 \<le> e" by simp
  moreover from Suc.prems(3) have "\<forall>k. j + 1 \<le> k \<and> k < e \<longrightarrow> \<not> isEndLine lines k"
    by simp
  ultimately have "findEndFixture lines (j + 1) = Some e"
    using Suc.prems(2) by (intro Suc.hyps(1))
  with no len show ?case
    by (subst findEndFixture.simps) simp
qed

subsection \<open>A container that is never closed\<close>





subsection \<open>Containers and the test cases they give\<close>

lemma scan_prefix: "scan scopes lines k tests = Inr out \<Longrightarrow> \<exists>more. out = tests @ more"
proof (induction "length lines - k" arbitrary: k tests rule: less_induct)
  case less
  show ?case
  proof (cases "k < length lines")
    case False
    with less.prems show ?thesis by (simp add: scan_done)
  next
    case lt: True
    have step: "scan scopes lines (k + 1) tests = Inr out \<Longrightarrow> \<exists>more. out = tests @ more"
      using lt by (intro less.hyps) simp_all
    show ?thesis
    proof (cases "isNameLine lines k \<and> isBeginLine lines (k + 1)")
      case False
      have "scan scopes lines k tests = scan scopes lines (k + 1) tests"
      proof (cases "isNameLine lines k")
        case True
        with False have "\<not> isBeginLine lines (k + 1)" by simp
        with True show ?thesis by (rule scan_no_begin)
      next
        case False
        with lt show ?thesis by (rule scan_skip)
      qed
      with less.prems have "scan scopes lines (k + 1) tests = Inr out"
        by simp
      then show ?thesis by (rule step)
    next
      case nb: True
      show ?thesis
      proof (cases "findEndFixture lines (k + 2)")
        case None
        with nb less.prems have "scan scopes lines (k + 1) tests = Inr out"
          using scan_unmatched [of lines k scopes tests] by auto
        then show ?thesis by (rule step)
      next
        case (Some e)
        then have e: "findEndFixture lines (Suc (Suc k)) = Some e" by simp
        show ?thesis
        proof (cases "isExpectedLine lines (skipBlank lines (e + 1))")
          case False
          with nb Some less.prems have "scan scopes lines (e + 1) tests = Inr out"
            using scan_plain [of lines k e scopes tests] by auto
          moreover have "length lines - (e + 1) < length lines - k"
            using scan_decreases_plain [OF lt e] by simp
          ultimately show ?thesis by (intro less.hyps)
        next
          case ex: True
          show ?thesis
          proof (cases "parseExpectedBlock scopes lines (skipBlank lines (e + 1))")
            case (Inl err)
            with nb Some ex less.prems show ?thesis
              using scan_error [of lines k e scopes err tests] by auto
          next
            case (Inr r)
            obtain exps endIndex where r: "r = (exps, endIndex)" by (cases r)
            define tc where "tc = \<lparr>name = trim (removeNameDirective (lines ! k)),
              input = join [CHR 0x0A] (map stripComma (take (e - (k + 2)) (drop (k + 2) lines))),
              expectations = exps\<rparr>"
            from nb Some ex Inr r less.prems
            have "scan scopes lines (nat (endIndex + 1)) (tests @ [tc]) = Inr out"
              using scan_expected [of lines k e scopes exps endIndex tests]
              by (auto simp: tc_def)
            moreover have "length lines - nat (endIndex + 1) < length lines - k"
              using Inr r by (intro scan_decreases_expected [OF lt e]) simp
            ultimately have "\<exists>more. out = (tests @ [tc]) @ more"
              by (intro less.hyps)
            then show ?thesis by auto
          qed
        qed
      qed
    qed
  qed
qed

text \<open>
  Claim C1, as the code has it.  Take a container: a \<open>#+NAME:\<close> line at \<open>i\<close>, a
  \<open>#+BEGIN_FIXTURE\<close> line behind it, and \<open>e\<close> the first \<open>#+END_FIXTURE\<close> line after that.
  \<^item> When the first non-blank line behind \<open>e\<close> is not an \<open>#+EXPECTED:\<close> line, the container
    gives no test case: the scan goes on behind \<open>e\<close> with the test cases it had.
  \<^item> When it is one, and its run of directives decodes to \<open>exps\<close>, the test case of the
    container, with its name, its input and \<open>exps\<close>, is in the output of every scan that
    returns.
  \<^item> A container without interior lines has the empty input.
\<close>

theorem container_needs_expected:
  assumes "isNameLine lines i" and "isBeginLine lines (i + 1)"
    and "i + 2 \<le> e" and "isEndLine lines e"
    and "\<forall>k. i + 2 \<le> k \<and> k < e \<longrightarrow> \<not> isEndLine lines k"
  shows "(\<not> isExpectedLine lines (skipBlank lines (e + 1)) \<longrightarrow>
            scan scopes lines i tests = scan scopes lines (e + 1) tests) \<and>
         (\<forall>exps endIndex out.
            isExpectedLine lines (skipBlank lines (e + 1)) \<and>
            parseExpectedBlock scopes lines (skipBlank lines (e + 1)) = Inr (exps, endIndex) \<and>
            scan scopes lines i tests = Inr out \<longrightarrow>
            (\<exists>more. out = tests @
               \<lparr>name = trim (removeNameDirective (lines ! i)),
                input = join [CHR 0x0A] (map stripComma (take (e - (i + 2)) (drop (i + 2) lines))),
                expectations = exps\<rparr> # more)) \<and>
         (e = i + 2 \<longrightarrow>
            join [CHR 0x0A] (map stripComma (take (e - (i + 2)) (drop (i + 2) lines))) = [])"
proof (intro conjI allI impI)
  from assms(3-5) have fe: "findEndFixture lines (i + 2) = Some e"
    by (rule findEndFixture_first)
  {
    assume "\<not> isExpectedLine lines (skipBlank lines (e + 1))"
    with assms(1,2) fe show "scan scopes lines i tests = scan scopes lines (e + 1) tests"
      by (rule scan_plain)
  }
next
  fix exps endIndex out
  define tc where "tc = \<lparr>name = trim (removeNameDirective (lines ! i)),
    input = join [CHR 0x0A] (map stripComma (take (e - (i + 2)) (drop (i + 2) lines))),
    expectations = exps\<rparr>"
  assume a: "isExpectedLine lines (skipBlank lines (e + 1)) \<and>
    parseExpectedBlock scopes lines (skipBlank lines (e + 1)) = Inr (exps, endIndex) \<and>
    scan scopes lines i tests = Inr out"
  from assms(3-5) have fe: "findEndFixture lines (i + 2) = Some e"
    by (rule findEndFixture_first)
  with a assms(1,2) have "scan scopes lines (nat (endIndex + 1)) (tests @ [tc]) = Inr out"
    using scan_expected [of lines i e scopes exps endIndex tests]
    by (auto simp: tc_def)
  then have "\<exists>more. out = (tests @ [tc]) @ more"
    by (rule scan_prefix)
  then show "\<exists>more. out = tests @ \<lparr>name = trim (removeNameDirective (lines ! i)),
      input = join [CHR 0x0A] (map stripComma (take (e - (i + 2)) (drop (i + 2) lines))),
      expectations = exps\<rparr> # more"
    by (simp add: tc_def)
next
  assume "e = i + 2"
  then show "join [CHR 0x0A] (map stripComma (take (e - (i + 2)) (drop (i + 2) lines))) = []"
    by simp
qed

text \<open>The claim as it was stated fails: a container with no expectation block behind it
  is not in the output.\<close>

theorem container_without_expected_counterexample:
  "parseFixtureFile Map.empty ''#+NAME: t\<newline>#+BEGIN_FIXTURE\<newline>#+END_FIXTURE'' = Inr []"
  by code_simp

theorem container_needs_expected_witness:
  "isNameLine [''#+NAME: t'', ''#+BEGIN_FIXTURE'', ''#+END_FIXTURE'', ''text''] 0 \<and>
   isBeginLine [''#+NAME: t'', ''#+BEGIN_FIXTURE'', ''#+END_FIXTURE'', ''text''] 1 \<and>
   isEndLine [''#+NAME: t'', ''#+BEGIN_FIXTURE'', ''#+END_FIXTURE'', ''text''] 2 \<and>
   scan Map.empty [''#+NAME: t'', ''#+BEGIN_FIXTURE'', ''#+END_FIXTURE'', ''text''] 0 [] = Inr [] \<and>
   scan Map.empty [''#+NAME: t'', ''#+BEGIN_FIXTURE'', ''#+END_FIXTURE'', [],
                   ''#+EXPECTED: :type none''] 0 [] =
     Inr [\<lparr>name = ''t'', input = [], expectations = []\<rparr>]"
proof -
  let ?L = "[''#+NAME: t'', ''#+BEGIN_FIXTURE'', ''#+END_FIXTURE'', ''text'']"
  let ?M = "[''#+NAME: t'', ''#+BEGIN_FIXTURE'', ''#+END_FIXTURE'', [], ''#+EXPECTED: :type none'']"
  have h1: "isNameLine ?L 0" by code_simp
  have h2: "isBeginLine ?L (0 + 1)" by code_simp
  have h3: "(0::nat) + 2 \<le> 2" by simp
  have h4: "isEndLine ?L 2" by code_simp
  have h5: "\<forall>k. 0 + 2 \<le> k \<and> k < 2 \<longrightarrow> \<not> isEndLine ?L k" by auto
  have h6: "\<not> isExpectedLine ?L (skipBlank ?L (2 + 1))" by code_simp
  have rest: "scan Map.empty ?L (2 + 1) [] = Inr []" by code_simp
  have with_directive: "scan Map.empty ?M 0 [] = Inr [\<lparr>name = ''t'', input = [], expectations = []\<rparr>]"
    by code_simp
  from container_needs_expected [OF h1 h2 h3 h4 h5, of Map.empty "[]"] h6
  have "scan Map.empty ?L 0 [] = scan Map.empty ?L (2 + 1) []"
    by blast
  with rest have "scan Map.empty ?L 0 [] = Inr []" by simp
  moreover from h2 have "isBeginLine ?L 1" by simp
  ultimately show ?thesis using h1 h4 with_directive by blast
qed

subsection \<open>The extent of a block\<close>

lemma collectBlock_takeWhile:
  "collectBlock lines j c e =
     (c @ takeWhile (\<lambda>l. \<not> isBlockTerminator (trim l)) (drop j lines),
      if j < length lines
      then j + length (takeWhile (\<lambda>l. \<not> isBlockTerminator (trim l)) (drop j lines)) - 1
      else e)"
proof (induction lines j c e rule: collectBlock.induct)
  case (1 lines j c e)
  show ?case
  proof (cases "j < length lines")
    case False
    then show ?thesis by (subst collectBlock.simps) simp
  next
    case lt: True
    then have dr: "drop j lines = lines ! j # drop (j + 1) lines"
      by (simp add: Cons_nth_drop_Suc)
    show ?thesis
    proof (cases "isBlockTerminator (trim (lines ! j))")
      case True
      with lt dr show ?thesis by (subst collectBlock.simps) simp
    next
      case False
      with lt have "collectBlock lines j c e = collectBlock lines (j + 1) (c @ [lines ! j]) j"
        by (subst collectBlock.simps) (simp add: Let_def)
      also note "1.IH" [OF lt refl refl False]
      finally show ?thesis using lt False dr by auto
    qed
  qed
qed

lemma takeWhile_upto_first:
  assumes "k < length xs" and "\<not> P (xs ! k)" and "\<forall>j<k. P (xs ! j)"
  shows "takeWhile P xs = take k xs"
proof -
  have "takeWhile P xs = takeWhile P (take k xs @ xs ! k # drop (Suc k) xs)"
    by (rule arg_cong [OF id_take_nth_drop [OF assms(1)]])
  also have "\<dots> = take k xs @ takeWhile P (xs ! k # drop (Suc k) xs)"
    using assms by (intro takeWhile_append2) (auto simp: in_set_conv_nth)
  also have "\<dots> = take k xs"
    using assms(2) by simp
  finally show ?thesis .
qed

lemma isHeadline_shape:
  "isHeadline t \<longleftrightarrow> (\<exists>n c r. 0 < n \<and> t = replicate n CHR ''*'' @ c # r \<and> isWhiteSpace c)"
proof
  assume h: "isHeadline t"
  define stars where "stars = takeWhile (\<lambda>c. c = CHR ''*'') t"
  from h obtain c r where r: "dropWhile (\<lambda>c. c = CHR ''*'') t = c # r" and c: "isWhiteSpace c"
    by (auto simp: isHeadline_def split: list.splits)
  have "\<forall>x\<in>set stars. x = CHR ''*''"
    unfolding stars_def by (auto dest: set_takeWhileD)
  then have "stars = replicate (length stars) CHR ''*''"
    by (simp add: replicate_length_same)
  moreover have "t = stars @ c # r"
    unfolding stars_def r [symmetric] by simp
  moreover from h have "0 < length stars"
    by (simp add: isHeadline_def stars_def)
  ultimately show "\<exists>n c r. 0 < n \<and> t = replicate n CHR ''*'' @ c # r \<and> isWhiteSpace c"
    using c by metis
next
  assume "\<exists>n c r. 0 < n \<and> t = replicate n CHR ''*'' @ c # r \<and> isWhiteSpace c"
  then obtain n c r where n: "0 < n" and t: "t = replicate n CHR ''*'' @ c # r"
    and c: "isWhiteSpace c" by blast
  from c have ne: "c \<noteq> CHR ''*''" by (auto simp: isWhiteSpace_def)
  have tw: "takeWhile (\<lambda>c. c = CHR ''*'') t = replicate n CHR ''*''"
    unfolding t using ne by (subst takeWhile_append2) auto
  have dw: "dropWhile (\<lambda>c. c = CHR ''*'') t = c # r"
    unfolding t using ne by (subst dropWhile_append2) auto
  from n tw dw c show "isHeadline t" by (simp add: isHeadline_def)
qed

text \<open>
  What the loop collects.  Every line is tested with the white space around it removed.
  The content of the block opened at line \<open>i\<close> is the lines behind \<open>i\<close> up to, and without,
  the first line that the test \<open>isBlockTerminator\<close> takes: one that starts with \<open>#+NAME:\<close>,
  \<open>#+BEGIN_FIXTURE\<close> or \<open>#+EXPECTED:\<close> in this very spelling, or that has the shape of a
  headline (one or more stars, then a white-space character) and does not contain \<open>=>\<close>;
  the block ends at the line before it.  A line with the shape of a headline that contains
  \<open>=>\<close> does not end the block.  Without such a line, the block goes to the last line of
  the file.
\<close>

lemma block_extent:
  assumes "i < length lines"
  shows "(\<forall>k. i < k \<and> k < length lines \<and> isBlockTerminator (trim (lines ! k)) \<and>
              (\<forall>j. i < j \<and> j < k \<longrightarrow> \<not> isBlockTerminator (trim (lines ! j))) \<longrightarrow>
              collectBlock lines (i + 1) [] i = (take (k - (i + 1)) (drop (i + 1) lines), k - 1)) \<and>
         ((\<forall>j. i < j \<and> j < length lines \<longrightarrow> \<not> isBlockTerminator (trim (lines ! j))) \<longrightarrow>
              collectBlock lines (i + 1) [] i = (drop (i + 1) lines, length lines - 1)) \<and>
         (\<forall>t. isBlockTerminator t \<longleftrightarrow>
              startsWith t ''#+NAME:'' \<or> startsWith t ''#+BEGIN_FIXTURE'' \<or>
              startsWith t ''#+EXPECTED:'' \<or>
              ((\<exists>n c r. 0 < n \<and> t = replicate n CHR ''*'' @ c # r \<and> isWhiteSpace c) \<and>
               \<not> includesStr t ''=>'')) \<and>
         (\<forall>t. isHeadline t \<and> includesStr t ''=>'' \<longrightarrow> \<not> isBlockTerminator t)"
proof (intro conjI allI impI)
  fix k
  assume a: "i < k \<and> k < length lines \<and> isBlockTerminator (trim (lines ! k)) \<and>
    (\<forall>j. i < j \<and> j < k \<longrightarrow> \<not> isBlockTerminator (trim (lines ! j)))"
  let ?P = "\<lambda>l. \<not> isBlockTerminator (trim l)"
  let ?xs = "drop (i + 1) lines"
  from a have "takeWhile ?P ?xs = take (k - (i + 1)) ?xs"
    by (intro takeWhile_upto_first) auto
  moreover from a have "length (take (k - (i + 1)) ?xs) = k - (i + 1)" by auto
  ultimately show "collectBlock lines (i + 1) [] i = (take (k - (i + 1)) ?xs, k - 1)"
    using a by (auto simp: collectBlock_takeWhile)
next
  assume a: "\<forall>j. i < j \<and> j < length lines \<longrightarrow> \<not> isBlockTerminator (trim (lines ! j))"
  let ?P = "\<lambda>l. \<not> isBlockTerminator (trim l)"
  have "\<forall>x\<in>set (drop (i + 1) lines). ?P x"
    using a by (auto simp: in_set_conv_nth)
  then have tw: "takeWhile ?P (drop (i + 1) lines) = drop (i + 1) lines"
    by (simp add: takeWhile_eq_all_conv)
  show "collectBlock lines (i + 1) [] i = (drop (i + 1) lines, length lines - 1)"
    unfolding collectBlock_takeWhile tw using assms by auto
next
  fix t
  show "isBlockTerminator t \<longleftrightarrow>
    startsWith t ''#+NAME:'' \<or> startsWith t ''#+BEGIN_FIXTURE'' \<or> startsWith t ''#+EXPECTED:'' \<or>
    ((\<exists>n c r. 0 < n \<and> t = replicate n CHR ''*'' @ c # r \<and> isWhiteSpace c) \<and>
     \<not> includesStr t ''=>'')"
    by (simp add: isBlockTerminator_def isHeadline_shape)
next
  fix t
  assume a: "isHeadline t \<and> includesStr t ''=>''"
  then obtain n c r where n: "0 < n" and t: "t = replicate n CHR ''*'' @ c # r"
    by (auto simp: isHeadline_shape)
  from n obtain m where "n = Suc m" by (cases n) auto
  with t have "\<not> startsWith t ''#+NAME:''" "\<not> startsWith t ''#+BEGIN_FIXTURE''"
    "\<not> startsWith t ''#+EXPECTED:''"
    by (simp_all add: startsWith_def)
  with a show "\<not> isBlockTerminator t"
    by (simp add: isBlockTerminator_def)
qed

lemma block_extent_example:
  "collectBlock [''#+EXPECTED: :type scope'', ''* Heading => scope.a'', ''  x => scope.b'',
                 ''* Next section'', ''text''] (0 + 1) [] 0 =
     ([''* Heading => scope.a'', ''  x => scope.b''], 2) \<and>
   collectBlock [''#+EXPECTED: :type folding'', ''[1-2]'', ''''] (0 + 1) [] 0 = ([''[1-2]'', ''''], 2) \<and>
   isHeadline ''* Heading => scope.a'' \<and> includesStr ''* Heading => scope.a'' ''=>'' \<and>
   \<not> isBlockTerminator ''* Heading => scope.a''"
proof -
  let ?L = "[''#+EXPECTED: :type scope'', ''* Heading => scope.a'', ''  x => scope.b'',
             ''* Next section'', ''text'']"
  let ?M = "[''#+EXPECTED: :type folding'', ''[1-2]'', '''']"
  have l: "0 < length ?L" and m: "0 < length ?M" by simp_all
  have k: "0 < (3::nat) \<and> 3 < length ?L \<and> isBlockTerminator (trim (?L ! 3)) \<and>
      (\<forall>j. 0 < j \<and> j < 3 \<longrightarrow> \<not> isBlockTerminator (trim (?L ! j)))"
  proof -
    have t3: "isBlockTerminator (trim (?L ! 3))" by code_simp
    have n1: "\<not> isBlockTerminator (trim (?L ! 1))" by code_simp
    have n2: "\<not> isBlockTerminator (trim (?L ! 2))" by code_simp
    have "\<not> isBlockTerminator (trim (?L ! j))" if "0 < j \<and> j < 3" for j :: nat
    proof -
      from that have "j = 1 \<or> j = 2" by auto
      then show ?thesis using n1 n2 by (elim disjE) (simp_all only: simp_thms)
    qed
    with t3 show ?thesis by simp
  qed
  have none: "\<forall>j. 0 < j \<and> j < length ?M \<longrightarrow> \<not> isBlockTerminator (trim (?M ! j))"
  proof -
    have n1: "\<not> isBlockTerminator (trim (?M ! 1))" by code_simp
    have n2: "\<not> isBlockTerminator (trim (?M ! 2))" by code_simp
    have "\<not> isBlockTerminator (trim (?M ! j))" if "0 < j \<and> j < length ?M" for j :: nat
    proof -
      from that have "j = 1 \<or> j = 2" by auto
      then show ?thesis using n1 n2 by (elim disjE) (simp_all only: simp_thms)
    qed
    then show ?thesis by blast
  qed
  have h: "isHeadline ''* Heading => scope.a'' \<and> includesStr ''* Heading => scope.a'' ''=>''"
    by code_simp
  from block_extent [OF l] k
  have "collectBlock ?L (0 + 1) [] 0 = (take (3 - (0 + 1)) (drop (0 + 1) ?L), 3 - 1)"
    by blast
  then have first: "collectBlock ?L (0 + 1) [] 0 = ([''* Heading => scope.a'', ''  x => scope.b''], 2)"
    by simp
  from block_extent [OF m] none
  have "collectBlock ?M (0 + 1) [] 0 = (drop (0 + 1) ?M, length ?M - 1)"
    by blast
  then have second: "collectBlock ?M (0 + 1) [] 0 = ([''[1-2]'', ''''], 2)"
    by simp
  from block_extent [OF l] h have "\<not> isBlockTerminator ''* Heading => scope.a''"
    by blast
  with first second h show ?thesis by blast
qed

text \<open>
  Claim C3 counts as a terminator every line that is a \<open>#+NAME:\<close>, \<open>#+BEGIN_FIXTURE\<close> or
  \<open>#+EXPECTED:\<close> directive.  The scan for containers and the loop over a run of directives
  take a directive in any spelling; the test that ends a block takes it in upper case only.
  So the claim fails on a directive written in lower case: below, line 2 is an
  \<open>#+EXPECTED:\<close> directive for the loop, yet the block opened at line 0 does not end before
  it and runs to the last line of the file.  The same holds of a \<open>#+name:\<close> and of a
  \<open>#+begin_fixture\<close> line.  With line 2 in upper case the block ends before it, as the
  claim says.
\<close>

theorem lower_case_directive_inside_block:
  "isExpectedLine [''#+EXPECTED: :type folding'', ''[0-1]'', ''#+expected: :type folding'',
                   ''[2-3]''] 2 \<and>
   collectBlock [''#+EXPECTED: :type folding'', ''[0-1]'', ''#+expected: :type folding'',
                 ''[2-3]''] (0 + 1) [] 0 =
     ([''[0-1]'', ''#+expected: :type folding'', ''[2-3]''], 3) \<and>
   collectBlock [''#+EXPECTED: :type folding'', ''[0-1]'', ''#+EXPECTED: :type folding'',
                 ''[2-3]''] (0 + 1) [] 0 =
     ([''[0-1]''], 1) \<and>
   isNameLine [''#+EXPECTED: :type folding'', ''[0-1]'', ''#+name: next'', ''#+begin_fixture''] 2 \<and>
   isBeginLine [''#+EXPECTED: :type folding'', ''[0-1]'', ''#+name: next'', ''#+begin_fixture''] 3 \<and>
   collectBlock [''#+EXPECTED: :type folding'', ''[0-1]'', ''#+name: next'', ''#+begin_fixture'']
     (0 + 1) [] 0 =
     ([''[0-1]'', ''#+name: next'', ''#+begin_fixture''], 3)"
  by code_simp

subsection \<open>The spelling of directives\<close>

text \<open>
  Claim C4 asks for directives to be matched without regard to case wherever they are
  tested.  The scan for containers and the loop over a run of \<open>#+EXPECTED:\<close> directives
  lower the line before they test it.  The test that ends a block does not: it looks for
  \<open>#+NAME:\<close>, \<open>#+BEGIN_FIXTURE\<close> and \<open>#+EXPECTED:\<close> in upper case only.  So a directive
  written \<open>#+expected:\<close> opens a block when the loop meets it, but does not end the block
  before it: it becomes content of that block.  Below, the second directive of the file is
  swallowed by the first block, whose ranges it joins; in upper case it gives a second
  expectation.
\<close>

theorem lower_case_directive_not_terminator:
  "isExpectedLine [''#+expected: :type folding''] 0 \<and>
   \<not> isBlockTerminator (trim ''#+expected: :type folding'') \<and>
   parseFixtureFile Map.empty
     ''#+NAME: t\<newline>#+BEGIN_FIXTURE\<newline>#+END_FIXTURE\<newline>#+EXPECTED: :type folding\<newline>[0-1]\<newline>#+expected: :type folding\<newline>[2-3]'' =
   Inr [\<lparr>name = ''t'', input = [],
         expectations =
           [FoldingExpectation [\<lparr>startLine = Num 0, endLine = Num 1\<rparr>,
                                \<lparr>startLine = Num 2, endLine = Num 3\<rparr>]]\<rparr>] \<and>
   parseFixtureFile Map.empty
     ''#+NAME: t\<newline>#+BEGIN_FIXTURE\<newline>#+END_FIXTURE\<newline>#+EXPECTED: :type folding\<newline>[0-1]\<newline>#+EXPECTED: :type folding\<newline>[2-3]'' =
   Inr [\<lparr>name = ''t'', input = [],
         expectations =
           [FoldingExpectation [\<lparr>startLine = Num 0, endLine = Num 1\<rparr>],
            FoldingExpectation [\<lparr>startLine = Num 2, endLine = Num 3\<rparr>]]\<rparr>]"
  by code_simp

subsection \<open>White space and tabs\<close>

lemma startsWith_Nil [simp]: "startsWith s []"
  by (simp add: startsWith_def)

lemma startsWith_Nil_left [simp]: "startsWith [] (x # p) = False"
  by (simp add: startsWith_def)

lemma startsWith_Cons [simp]: "startsWith (c # s) (x # p) \<longleftrightarrow> c = x \<and> startsWith s p"
  by (auto simp: startsWith_def)

lemma trimStart_eq_Nil: "trimStart s = [] \<longleftrightarrow> (\<forall>c\<in>set s. isWhiteSpace c)"
  by (simp add: trimStart_def dropWhile_eq_Nil_conv)

lemma trimEnd_Cons_not_space:
  assumes "\<not> isWhiteSpace c"
  shows "\<exists>r. trimEnd (c # s) = c # r"
proof -
  have "dropWhile isWhiteSpace (rev s @ [c]) = dropWhile isWhiteSpace (rev s) @ [c]"
    using assms by (induction "rev s" arbitrary: s) (auto simp: dropWhile_append3 dropWhile_append)
  then show ?thesis by (simp add: trimEnd_def)
qed

lemma trim_eq_Nil: "trim s = [] \<longleftrightarrow> (\<forall>c\<in>set s. isWhiteSpace c)"
proof (cases "dropWhile isWhiteSpace s")
  case Nil
  have "trim s = []"
    unfolding trim_def trimStart_def trimEnd_def Nil by simp
  moreover from Nil have "\<forall>c\<in>set s. isWhiteSpace c"
    by (simp add: dropWhile_eq_Nil_conv)
  ultimately show ?thesis by simp
next
  case (Cons c r)
  then have c: "\<not> isWhiteSpace c"
    using hd_dropWhile [of isWhiteSpace s] by auto
  from trimEnd_Cons_not_space [OF c, of r] Cons have "trim s \<noteq> []"
    by (auto simp: trim_def trimStart_def)
  moreover from Cons have "\<not> (\<forall>c\<in>set s. isWhiteSpace c)"
    by (auto simp: dropWhile_eq_Nil_conv [symmetric])
  ultimately show ?thesis by simp
qed

lemma trim_starts:
  "startsWith (trim s) [x] \<longleftrightarrow> startsWith (dropWhile isWhiteSpace s) [x]"
proof (cases "dropWhile isWhiteSpace s")
  case Nil
  show ?thesis
    unfolding trim_def trimStart_def trimEnd_def Nil by simp
next
  case (Cons c r)
  then have c: "\<not> isWhiteSpace c"
    using hd_dropWhile [of isWhiteSpace s] by auto
  from trimEnd_Cons_not_space [OF c, of r] obtain r' where "trimEnd (c # r) = c # r'" ..
  with Cons show ?thesis
    by (simp add: trim_def trimStart_def)
qed

lemma replaceAll_char:
  "replaceAll [x] r s = concat (map (\<lambda>c. if c = x then r else [c]) s)"
  by (induction s) auto

lemma dropWhile_space_tabs:
  "dropWhile isWhiteSpace (replaceAll [CHR 0x09] ''    '' s) =
   replaceAll [CHR 0x09] ''    '' (dropWhile isWhiteSpace s)"
proof (induction s)
  case Nil
  show ?case by simp
next
  case (Cons c s)
  have sp: "isWhiteSpace CHR '' ''" and tab: "isWhiteSpace (CHR 0x09)"
    by (simp_all add: isWhiteSpace_def)
  show ?case
  proof (cases "c = CHR 0x09")
    case True
    with Cons sp tab show ?thesis by simp
  next
    case False
    with Cons show ?thesis by simp
  qed
qed

text \<open>A line that is blank, or whose first character other than white space is \<open>#\<close>,
  stays so when its tabs become spaces.\<close>

lemma skipped_line_tabs:
  "(trim (replaceAll [CHR 0x09] ''    '' raw) = [] \<or>
    startsWith (trim (replaceAll [CHR 0x09] ''    '' raw)) ''#'') \<longleftrightarrow>
   (trim raw = [] \<or> startsWith (trim raw) ''#'')"
proof -
  let ?t = "replaceAll [CHR 0x09] ''    ''"
  have sp: "isWhiteSpace CHR '' ''" and tab: "isWhiteSpace (CHR 0x09)"
    by (simp_all add: isWhiteSpace_def)
  have blank: "trim (?t raw) = [] \<longleftrightarrow> trim raw = []"
    using sp tab by (auto simp: trim_eq_Nil replaceAll_char split: if_splits)
  have "startsWith (?t (dropWhile isWhiteSpace raw)) ''#'' \<longleftrightarrow>
      startsWith (dropWhile isWhiteSpace raw) ''#''"
  proof (cases "dropWhile isWhiteSpace raw")
    case Nil
    show ?thesis unfolding Nil by simp
  next
    case (Cons c r)
    show ?thesis unfolding Cons by simp
  qed
  then have "startsWith (trim (?t raw)) ''#'' \<longleftrightarrow> startsWith (trim raw) ''#''"
    by (simp add: trim_starts dropWhile_space_tabs)
  with blank show ?thesis by simp
qed

subsection \<open>A scope block without assertions\<close>

lemma parseScopeLine_skipped:
  "trim raw = [] \<or> startsWith (trim raw) ''#'' \<Longrightarrow> parseScopeLine scopes raw = None"
  using skipped_line_tabs [of raw] by (simp add: parseScopeLine_def Let_def)

lemma scopeLoop_skipped:
  "\<not> hasMeaningfulContent content \<Longrightarrow> scopeLoop scopes content st = st"
proof (induction content)
  case Nil
  show ?case by simp
next
  case (Cons raw content)
  from Cons.prems have "trim raw = [] \<or> startsWith (trim raw) ''#''"
    by (auto simp: hasMeaningfulContent_def)
  then have "parseScopeLine scopes raw = None"
    by (rule parseScopeLine_skipped)
  moreover from Cons have "scopeLoop scopes content st = st"
    by (simp add: hasMeaningfulContent_def)
  ultimately show ?case by (cases st) simp
qed

text \<open>
  Claim C5.  A scope block with a line that is neither blank nor a comment, and from which
  the loop decoded no assertion, throws.  A block of blank lines and comments only decodes
  to a scope expectation with no assertions and no tree.  The error leaves the loop over
  the directives whatever expectations it had before, and it leaves the scan of the file
  whatever test cases it had before: no list of test cases is returned.
\<close>

theorem scope_block_malformed:
  "(hasMeaningfulContent content \<and> fst (scopeLoop scopes content ([], emptyForest)) = [] \<longrightarrow>
      decodeScope scopes content = Inl MalformedScopeBlock) \<and>
   (\<not> hasMeaningfulContent content \<longrightarrow>
      decodeScope scopes content = Inr (ScopeExpectation [] \<lparr>nodes = [], roots = []\<rparr>)) \<and>
   (hasMeaningfulContent content \<longleftrightarrow>
      (\<exists>l\<in>set content. trim l \<noteq> [] \<and> \<not> startsWith (trim l) ''#'')) \<and>
   (isExpectedLine lines i \<and> parseExpectedArgs (lines ! i) ''type'' = Some ''scope'' \<and>
    decodeScope scopes (fst (collectBlock lines (i + 1) [] i)) = Inl e \<longrightarrow>
      parseExpectedBlockLoop scopes lines i acc = Inl e) \<and>
   (isNameLine lines n \<and> isBeginLine lines (n + 1) \<and> findEndFixture lines (n + 2) = Some m \<and>
    isExpectedLine lines (skipBlank lines (m + 1)) \<and>
    parseExpectedBlock scopes lines (skipBlank lines (m + 1)) = Inl e \<longrightarrow>
      scan scopes lines n tests = Inl e)"
proof (intro conjI impI)
  assume "hasMeaningfulContent content \<and> fst (scopeLoop scopes content ([], emptyForest)) = []"
  then show "decodeScope scopes content = Inl MalformedScopeBlock"
    by (auto simp: decodeScope_def split: prod.splits)
next
  assume "\<not> hasMeaningfulContent content"
  then show "decodeScope scopes content = Inr (ScopeExpectation [] \<lparr>nodes = [], roots = []\<rparr>)"
    by (simp add: decodeScope_def scopeLoop_skipped emptyForest_def)
next
  show "hasMeaningfulContent content \<longleftrightarrow>
      (\<exists>l\<in>set content. trim l \<noteq> [] \<and> \<not> startsWith (trim l) ''#'')"
    by (simp add: hasMeaningfulContent_def list_ex_iff)
next
  assume a: "isExpectedLine lines i \<and> parseExpectedArgs (lines ! i) ''type'' = Some ''scope'' \<and>
    decodeScope scopes (fst (collectBlock lines (i + 1) [] i)) = Inl e"
  then have "decodeBlock scopes (lines ! i) (parseExpectedArgs (lines ! i))
      (parseExpectedArgs (lines ! i) ''type'') (fst (collectBlock lines (i + 1) [] i)) = Inl e"
    by (simp add: decodeBlock_def)
  with a show "parseExpectedBlockLoop scopes lines i acc = Inl e"
    by (intro parseExpectedBlockLoop_error) simp_all
next
  assume "isNameLine lines n \<and> isBeginLine lines (n + 1) \<and> findEndFixture lines (n + 2) = Some m \<and>
    isExpectedLine lines (skipBlank lines (m + 1)) \<and>
    parseExpectedBlock scopes lines (skipBlank lines (m + 1)) = Inl e"
  then show "scan scopes lines n tests = Inl e"
    by (intro scan_error [of lines n m]) simp_all
qed

theorem scope_block_malformed_witness:
  "hasMeaningfulContent [''# a note'', ''this is not an assertion''] \<and>
   decodeScope Map.empty [''# a note'', ''this is not an assertion''] = Inl MalformedScopeBlock \<and>
   \<not> hasMeaningfulContent [''# a note'', ''   '', []] \<and>
   decodeScope Map.empty [''# a note'', ''   '', []] =
     Inr (ScopeExpectation [] \<lparr>nodes = [], roots = []\<rparr>) \<and>
   parseFixtureFile Map.empty
     ''#+NAME: good\<newline>#+BEGIN_FIXTURE\<newline>* A\<newline>#+END_FIXTURE\<newline>#+EXPECTED: :type folding\<newline>[0-1]\<newline>#+NAME: bad\<newline>#+BEGIN_FIXTURE\<newline>* B\<newline>#+END_FIXTURE\<newline>#+EXPECTED: :type scope\<newline>this is not an assertion'' =
     Inl MalformedScopeBlock"
proof -
  let ?bad = "[''# a note'', ''this is not an assertion'']"
  let ?ok = "[''# a note'', ''   '', []]"
  have h1: "hasMeaningfulContent ?bad \<and> fst (scopeLoop Map.empty ?bad ([], emptyForest)) = []"
    by code_simp
  have h2: "\<not> hasMeaningfulContent ?ok"
    by code_simp
  have whole: "parseFixtureFile Map.empty
     ''#+NAME: good\<newline>#+BEGIN_FIXTURE\<newline>* A\<newline>#+END_FIXTURE\<newline>#+EXPECTED: :type folding\<newline>[0-1]\<newline>#+NAME: bad\<newline>#+BEGIN_FIXTURE\<newline>* B\<newline>#+END_FIXTURE\<newline>#+EXPECTED: :type scope\<newline>this is not an assertion'' =
     Inl MalformedScopeBlock"
    by code_simp
  from scope_block_malformed [of ?bad Map.empty] h1
  have r1: "decodeScope Map.empty ?bad = Inl MalformedScopeBlock" by blast
  from scope_block_malformed [of ?ok Map.empty] h2
  have r2: "decodeScope Map.empty ?ok = Inr (ScopeExpectation [] \<lparr>nodes = [], roots = []\<rparr>)"
    by blast
  from h1 h2 r1 r2 whole show ?thesis by blast
qed

subsection \<open>The decoding of a scope line\<close>






subsection \<open>The captures of a regex block\<close>

lemma isNoMatch_not_row: "isNoMatch l \<Longrightarrow> \<not> startsWith (trim l) ''|''"
proof
  assume n: "isNoMatch l" and b: "startsWith (trim l) ''|''"
  from b obtain r where "trim l = CHR ''|'' # r"
    by (cases "trim l") auto
  with n have "lowerChar CHR ''|'' = CHR ''n''"
    by (simp add: isNoMatch_def toLowerCase_def)
  moreover have "lowerChar CHR ''|'' = CHR ''|''" by code_simp
  ultimately show False by simp
qed

lemma regexScan_eq:
  "regexScan ls (sm, rows) =
     (sm \<and> \<not> list_ex isNoMatch ls,
      rows @ map trim (filter (\<lambda>l. startsWith (trim l) ''|'') ls))"
proof (induction ls arbitrary: sm rows)
  case Nil
  show ?case by simp
next
  case (Cons l ls)
  show ?case
  proof (cases "isNoMatch l")
    case True
    with isNoMatch_not_row [OF True] Cons show ?thesis
      by (simp add: isNoMatch_def)
  next
    case False
    with Cons show ?thesis
      by (simp add: isNoMatch_def)
  qed
qed

lemma captureOfRow_eq:
  "captureOfRow row = (if isCaptureRow row then Some (captureOf row) else None)"
  by (simp add: captureOfRow_def isCaptureRow_def captureOf_def cells_def Let_def)

lemma map_filter_if:
  "List.map_filter (\<lambda>x. if P x then Some (f x) else None) xs = map f (filter P xs)"
  by (induction xs) (simp_all add: List.map_filter_simps)

lemma includesStr_Cons_in_set: "includesStr s (x # p) \<Longrightarrow> x \<in> set s"
  by (induction s) (auto simp: includesStr_def split: if_splits)

lemma parseInt10_decimal:
  assumes "isDecimal s"
  shows "parseInt10 s = Num (int (digitsToNat s))"
proof -
  from assms obtain c r where s: "s = c # r" and c: "isDigit c" and r: "list_all isDigit r"
    by (cases s) (auto simp: isDecimal_def)
  from c have nw: "\<not> isWhiteSpace c" and nm: "c \<noteq> CHR ''-''" and np: "c \<noteq> CHR ''+''"
    by (auto simp: isDigit_def isWhiteSpace_def)
  from c r have "takeWhile isDigit s = s"
    unfolding s by (simp add: takeWhile_eq_all_conv list_all_iff)
  with nw nm np show ?thesis
    by (simp add: parseInt10_def trimStart_def s)
qed

text \<open>
  Claim C2, as the code has it.  For a regex block with a name: \<open>shouldMatch\<close> is false when
  a content line is \<open>no-match\<close>, and then there are no captures.  Otherwise there is one
  capture for each content line that, trimmed, starts with \<open>|\<close> and is a capture row (at
  least three cells, the second neither \<open>Group #\<close> nor with \<open>---\<close> in it), in the order of
  the lines, none left out for having the index of another.  The index of a capture is what
  \<open>parseInt\<close> makes of the second cell: that integer when the cell is a decimal integer,
  which always makes a capture row; the value is the third cell with the placeholders
  expanded.  A row whose second cell is the header label or has \<open>---\<close> in it gives no
  capture.
\<close>

theorem regex_captures:
  assumes "args ''name'' = Some regexName" and "regexName \<noteq> []"
  shows "decodeRegex expectedLine args content =
           Inr (RegexExpectation regexName (\<not> list_ex isNoMatch content)
                 (if list_ex isNoMatch content then None
                  else Some (map captureOf (filter isCaptureRow
                         (map trim (filter (\<lambda>l. startsWith (trim l) ''|'') content)))))) \<and>
         (\<forall>row. 3 \<le> length (cells row) \<and> isDecimal (cells row ! 1) \<longrightarrow>
            isCaptureRow row \<and>
            captureOf row = \<lparr>capture_index = Num (int (digitsToNat (cells row ! 1))),
                             capture_value = processExpectedValue (cells row ! 2)\<rparr>) \<and>
         (\<forall>row. cells row ! 1 = ''Group #'' \<or> includesStr (cells row ! 1) ''---'' \<longrightarrow>
            \<not> isCaptureRow row)"
proof (intro conjI allI impI)
  show "decodeRegex expectedLine args content =
      Inr (RegexExpectation regexName (\<not> list_ex isNoMatch content)
            (if list_ex isNoMatch content then None
             else Some (map captureOf (filter isCaptureRow
                    (map trim (filter (\<lambda>l. startsWith (trim l) ''|'') content))))))"
    using assms
    by (simp add: decodeRegex_def regexScan_eq captureOfRow_eq [abs_def] map_filter_if)
next
  fix row
  assume a: "3 \<le> length (cells row) \<and> isDecimal (cells row ! 1)"
  then have d: "list_all isDigit (cells row ! 1)" by (simp add: isDecimal_def)
  have "\<not> isDigit CHR ''G''" "\<not> isDigit CHR ''-''" by code_simp+
  with d have "cells row ! 1 \<noteq> ''Group #''" "\<not> includesStr (cells row ! 1) ''---''"
    by (auto simp: list_all_iff dest: includesStr_Cons_in_set)
  with a show "isCaptureRow row"
    by (simp add: isCaptureRow_def)
  from a show "captureOf row = \<lparr>capture_index = Num (int (digitsToNat (cells row ! 1))),
      capture_value = processExpectedValue (cells row ! 2)\<rparr>"
    by (simp add: captureOf_def parseInt10_decimal)
next
  fix row
  assume "cells row ! 1 = ''Group #'' \<or> includesStr (cells row ! 1) ''---''"
  then show "\<not> isCaptureRow row"
    by (auto simp: isCaptureRow_def)
qed

text \<open>The claim as it was stated fails: a row whose second cell is some other text that
  is not a number gives a capture, with the index \<open>NaN\<close>.\<close>

theorem regex_captures_counterexample:
  "parseExpectedBlock Map.empty [''#+EXPECTED: :type regex :name r'', ''| abc | x |''] 0 =
     Inr ([RegexExpectation ''r'' True (Some [\<lparr>capture_index = NaN, capture_value = ''x''\<rparr>])], 1)"
  by code_simp

theorem regex_captures_witness:
  "parseExpectedArgs ''#+EXPECTED: :type regex :name r'' ''name'' = Some ''r'' \<and>
   decodeRegex ''#+EXPECTED: :type regex :name r'' (parseExpectedArgs ''#+EXPECTED: :type regex :name r'')
     [''| Group # | Value |'', ''|---|---|'', '' | 1 | * |'', ''note'', ''| 5 | Hello |'', ''| 1 | <sp:2> |''] =
   Inr (RegexExpectation ''r'' True
     (Some [\<lparr>capture_index = Num 1, capture_value = ''*''\<rparr>,
            \<lparr>capture_index = Num 5, capture_value = ''Hello''\<rparr>,
            \<lparr>capture_index = Num 1, capture_value = ''  ''\<rparr>]))"
proof -
  let ?line = "''#+EXPECTED: :type regex :name r''"
  let ?content = "[''| Group # | Value |'', ''|---|---|'', '' | 1 | * |'', ''note'',
                   ''| 5 | Hello |'', ''| 1 | <sp:2> |'']"
  have h1: "parseExpectedArgs ?line ''name'' = Some ''r''" by code_simp
  have h2: "''r'' \<noteq> []" by simp
  have sm: "\<not> list_ex isNoMatch ?content" by code_simp
  have caps: "map captureOf (filter isCaptureRow
      (map trim (filter (\<lambda>l. startsWith (trim l) ''|'') ?content))) =
    [\<lparr>capture_index = Num 1, capture_value = ''*''\<rparr>,
     \<lparr>capture_index = Num 5, capture_value = ''Hello''\<rparr>,
     \<lparr>capture_index = Num 1, capture_value = ''  ''\<rparr>]"
    by code_simp
  from regex_captures [where args = "parseExpectedArgs ?line" and regexName = "''r''"
      and expectedLine = ?line and content = ?content, OF h1 h2]
  have "decodeRegex ?line (parseExpectedArgs ?line) ?content =
      Inr (RegexExpectation ''r'' (\<not> list_ex isNoMatch ?content)
            (if list_ex isNoMatch ?content then None
             else Some (map captureOf (filter isCaptureRow
                    (map trim (filter (\<lambda>l. startsWith (trim l) ''|'') ?content))))))"
    by (rule conjunct1)
  with sm caps have "decodeRegex ?line (parseExpectedArgs ?line) ?content =
      Inr (RegexExpectation ''r'' True
        (Some [\<lparr>capture_index = Num 1, capture_value = ''*''\<rparr>,
               \<lparr>capture_index = Num 5, capture_value = ''Hello''\<rparr>,
               \<lparr>capture_index = Num 1, capture_value = ''  ''\<rparr>]))"
    by (simp only: simp_thms if_False)
  with h1 show ?thesis by (rule conjI)
qed

subsection \<open>The Value Normalizer\<close>

lemma startsWith_append: "startsWith s p \<Longrightarrow> s = p @ drop (length p) s"
  by (metis append_take_drop_id startsWith_def)

lemma matchSp_shape:
  assumes "matchSp s = Some (count, rest)"
  shows "s = ''<sp:'' @ count @ ''>'' @ rest \<and> isDecimal count"
proof -
  from assms have st: "startsWith s ''<sp:''"
    by (simp add: matchSp_def split: if_splits)
  define r where "r = drop 4 s"
  from startsWith_append [OF st] have s: "s = ''<sp:'' @ r"
    by (simp add: r_def eval_nat_numeral)
  from assms st have c: "count = takeWhile isDigit r" and ne: "count \<noteq> []"
    and gt: "startsWith (dropWhile isDigit r) ''>''" and rest: "rest = drop 1 (dropWhile isDigit r)"
    by (auto simp: matchSp_def Let_def r_def split: if_splits)
  from startsWith_append [OF gt] rest have "dropWhile isDigit r = ''>'' @ rest" by simp
  with c have "r = count @ ''>'' @ rest"
    by (metis takeWhile_dropWhile_id)
  moreover from c ne have "isDecimal count"
    by (auto simp: isDecimal_def list_all_iff dest: set_takeWhileD)
  ultimately show ?thesis using s by simp
qed

lemma repeat_space: "repeat '' '' (Num (int k)) = replicate k CHR '' ''"
proof -
  have "concat (replicate k '' '') = replicate k CHR '' ''"
    by (induction k) simp_all
  then show ?thesis by simp
qed

lemma matchSp_not_lt: "c \<noteq> CHR ''<'' \<Longrightarrow> matchSp (c # cs) = None"
  by (simp add: matchSp_def)

lemma replaceSp_other [simp]: "c \<noteq> CHR ''<'' \<Longrightarrow> replaceSp (c # cs) = c # replaceSp cs"
  by (simp add: matchSp_not_lt)

lemma replaceAll_other:
  "c \<noteq> x \<Longrightarrow> replaceAll (x # p) r (c # cs) = c # replaceAll (x # p) r cs"
  by simp

lemma replaceAll_spaces:
  "x \<noteq> CHR '' '' \<Longrightarrow>
   replaceAll (x # p) r (replicate k CHR '' '' @ s) = replicate k CHR '' '' @ replaceAll (x # p) r s"
  by (induction k) simp_all

lemma matchSp_spaces:
  assumes "matchSp s = Some (count, rest)"
  shows "repeat '' '' (parseInt10 count) = replicate (digitsToNat count) CHR '' ''"
  using matchSp_shape [OF assms] by (simp add: parseInt10_decimal repeat_space)

lemma matchSp_lt: "matchSp (c # cs) = Some (count, rest) \<Longrightarrow> c = CHR ''<''"
  by (simp add: matchSp_def split: if_splits)

lemma replaceSp_Some:
  "matchSp (c # cs) = Some (count, rest) \<Longrightarrow>
   replaceSp (c # cs) = replicate (digitsToNat count) CHR '' '' @ replaceSp rest"
  using matchSp_spaces [of "c # cs" count rest] by simp

lemma replaceSp_None: "matchSp (c # cs) = None \<Longrightarrow> replaceSp (c # cs) = c # replaceSp cs"
  by simp

declare replaceSp.simps(2) [simp del]

text \<open>When no token \<open><sp:N>\<close> stands for the empty string, the first pass keeps every
  prefix that has no \<open><\<close> and no space in it, and brings no new one.\<close>

lemma replaceSp_prefix:
  assumes "noEmptySp cs" and "CHR ''<'' \<notin> set w" and "CHR '' '' \<notin> set w"
  shows "startsWith (replaceSp cs) w \<longleftrightarrow> startsWith cs w"
  using assms
proof (induction w arbitrary: cs)
  case Nil
  show ?case by simp
next
  case (Cons x w)
  show ?case
  proof (cases cs)
    case Nil
    then show ?thesis by simp
  next
    case cs: (Cons c cs')
    show ?thesis
    proof (cases "matchSp cs")
      case None
      with cs Cons show ?thesis by (simp add: replaceSp_None)
    next
      case (Some m)
      obtain count rest where m: "m = (count, rest)" by (cases m)
      from Some cs m have c: "c = CHR ''<''" by (auto dest: matchSp_lt)
      from Some m Cons.prems(1) cs have nz: "parseInt10 count \<noteq> Num 0" by simp
      from matchSp_shape Some m have "isDecimal count" by blast
      with nz have "digitsToNat count \<noteq> 0" by (simp add: parseInt10_decimal)
      then obtain k where k: "digitsToNat count = Suc k" by (cases "digitsToNat count") auto
      from Some m cs have "replaceSp cs = replicate (Suc k) CHR '' '' @ replaceSp rest"
        using replaceSp_Some [of c cs' count rest] k by simp
      with Cons.prems c cs show ?thesis by auto
    qed
  qed
qed


lemma noEmptySp_suffix: "noEmptySp (xs @ ys) \<Longrightarrow> noEmptySp ys"
  by (induction xs) simp_all

lemma noEmptySp_drop: "noEmptySp s \<Longrightarrow> noEmptySp (drop n s)"
  using noEmptySp_suffix [of "take n s" "drop n s"] by simp

lemma noEmptySp_rest: "noEmptySp s \<Longrightarrow> matchSp s = Some (count, rest) \<Longrightarrow> noEmptySp rest"
  using matchSp_shape [of s count rest] noEmptySp_suffix [of "''<sp:'' @ count @ ''>''" rest]
  by simp

lemma tabs_replaceSp_other:
  "c \<noteq> CHR ''<'' \<Longrightarrow>
   replaceAll ''<tab>'' r (replaceSp (c # cs)) = c # replaceAll ''<tab>'' r (replaceSp cs)"
  by simp

lemma tabs_replaceSp_sp:
  assumes "matchSp s = Some (count, rest)"
  shows "replaceAll ''<tab>'' r (replaceSp s) =
         replicate (digitsToNat count) CHR '' '' @ replaceAll ''<tab>'' r (replaceSp rest)"
proof -
  from assms obtain c cs where s: "s = c # cs"
    by (cases s) (auto simp: matchSp_def)
  from assms have "replaceSp s = replicate (digitsToNat count) CHR '' '' @ replaceSp rest"
    unfolding s by (rule replaceSp_Some)
  then show ?thesis by (simp add: replaceAll_spaces)
qed

lemma matchSp_tab: "matchSp (''<tab>'' @ r) = None"
  by (simp add: matchSp_def)

lemma matchSp_pipe: "matchSp (''<pipe>'' @ r) = None"
  by (simp add: matchSp_def)

lemma replaceSp_tab: "replaceSp (''<tab>'' @ r) = ''<tab>'' @ replaceSp r"
  using matchSp_tab [of r] by (simp add: replaceSp_None)

lemma replaceSp_pipe: "replaceSp (''<pipe>'' @ r) = ''<pipe>'' @ replaceSp r"
  using matchSp_pipe [of r] by (simp add: replaceSp_None)

lemma tabs_replaceSp_tab:
  "replaceAll ''<tab>'' r (replaceSp (''<tab>'' @ s)) = r @ replaceAll ''<tab>'' r (replaceSp s)"
  by (subst replaceSp_tab) simp

lemma startsWith_tab: "startsWith cs ''tab>'' \<Longrightarrow> CHR ''<'' # cs = ''<tab>'' @ drop 4 cs"
  using startsWith_append [of cs "''tab>''"] by (simp add: eval_nat_numeral)

lemma startsWith_pipe: "startsWith cs ''pipe>'' \<Longrightarrow> CHR ''<'' # cs = ''<pipe>'' @ drop 5 cs"
  using startsWith_append [of cs "''pipe>''"] by (simp add: eval_nat_numeral)

lemma tabs_replaceSp_lt:
  assumes "noEmptySp cs" and "matchSp (CHR ''<'' # cs) = None" and "\<not> startsWith cs ''tab>''"
  shows "replaceAll ''<tab>'' r (replaceSp (CHR ''<'' # cs)) =
         CHR ''<'' # replaceAll ''<tab>'' r (replaceSp cs)"
proof -
  from assms(1) have "startsWith (replaceSp cs) ''tab>'' \<longleftrightarrow> startsWith cs ''tab>''"
    by (intro replaceSp_prefix) simp_all
  with assms(2,3) show ?thesis by (simp add: replaceSp_None)
qed

lemma tabs_replaceSp_prefix:
  assumes "noEmptySp cs" and "CHR ''<'' \<notin> set w" and "CHR '' '' \<notin> set w"
    and "CHR 0x09 \<notin> set w"
  shows "startsWith (replaceAll ''<tab>'' [CHR 0x09] (replaceSp cs)) w \<longleftrightarrow> startsWith cs w"
  using assms
proof (induction w arbitrary: cs)
  case Nil
  show ?case by simp
next
  case (Cons x w)
  show ?case
  proof (cases cs)
    case Nil
    then show ?thesis by simp
  next
    case cs: (Cons c cs')
    from Cons.prems cs have ne: "noEmptySp cs'" by simp
    show ?thesis
    proof (cases "c = CHR ''<''")
      case False
      with Cons.IH [of cs'] Cons.prems ne show ?thesis
        unfolding cs by (simp add: tabs_replaceSp_other)
    next
      case c: True
      from Cons.prems c have no: "\<not> startsWith cs (x # w)"
        unfolding cs by auto
      show ?thesis
      proof (cases "matchSp cs")
        case (Some m)
        obtain count rest where m: "m = (count, rest)" by (cases m)
        from Some m Cons.prems(1) cs have nz: "parseInt10 count \<noteq> Num 0" by simp
        from matchSp_shape Some m have "isDecimal count" by blast
        with nz have "digitsToNat count \<noteq> 0" by (simp add: parseInt10_decimal)
        then obtain k where k: "digitsToNat count = Suc k" by (cases "digitsToNat count") auto
        from tabs_replaceSp_sp [of cs count rest "[CHR 0x09]"] Some m k Cons.prems no
        show ?thesis by auto
      next
        case None
        show ?thesis
        proof (cases "startsWith cs' ''tab>''")
          case True
          from startsWith_tab [OF True] have "cs = ''<tab>'' @ drop 4 cs'"
            unfolding cs c by simp
          with tabs_replaceSp_tab [of "[CHR 0x09]" "drop 4 cs'"] Cons.prems no
          show ?thesis by auto
        next
          case False
          from tabs_replaceSp_lt [OF ne _ False, of "[CHR 0x09]"] None Cons.prems no
          show ?thesis unfolding cs c by auto
        qed
      qed
    qed
  qed
qed

lemma sequential_is_simultaneous:
  "noEmptySp v \<Longrightarrow> processExpectedValue v = expandTokens v"
proof (induction v rule: expandTokens.induct)
  case 1
  show ?case by (simp add: processExpectedValue_def)
next
  case (2 c cs)
  let ?tabs = "replaceAll ''<tab>'' [CHR 0x09]"
  let ?pipes = "replaceAll ''<pipe>'' ''|''"
  from "2.prems" have ne: "noEmptySp cs" by simp
  show ?case
  proof (cases "matchSp (c # cs)")
    case (Some m)
    obtain count rest where m: "m = (count, rest)" by (cases m)
    from noEmptySp_rest [OF "2.prems"] Some m have "noEmptySp rest" by simp
    with "2.IH" Some m have ih: "processExpectedValue rest = expandTokens rest" by blast
    from tabs_replaceSp_sp [of "c # cs" count rest "[CHR 0x09]"] Some m
    have "processExpectedValue (c # cs) =
        replicate (digitsToNat count) CHR '' '' @ processExpectedValue rest"
      by (simp add: processExpectedValue_def replaceAll_spaces)
    with ih Some m matchSp_spaces [of "c # cs" count rest] show ?thesis by simp
  next
    case None
    show ?thesis
    proof (cases "startsWith (c # cs) ''<tab>''")
      case True
      from True startsWith_tab [of cs] have s: "c # cs = ''<tab>'' @ drop 4 cs" by simp
      from "2.IH" None True noEmptySp_drop [OF ne, of 4]
      have ih: "processExpectedValue (drop 4 cs) = expandTokens (drop 4 cs)"
        by blast
      have "processExpectedValue (c # cs) = CHR 0x09 # processExpectedValue (drop 4 cs)"
        unfolding s processExpectedValue_def tabs_replaceSp_tab by simp
      with ih None True show ?thesis by simp
    next
      case nt: False
      show ?thesis
      proof (cases "startsWith (c # cs) ''<pipe>''")
        case True
        from True startsWith_pipe [of cs] have s: "c # cs = ''<pipe>'' @ drop 5 cs" by simp
        from "2.IH" None nt True noEmptySp_drop [OF ne, of 5]
        have ih: "processExpectedValue (drop 5 cs) = expandTokens (drop 5 cs)"
          by blast
        have "processExpectedValue (c # cs) = CHR ''|'' # processExpectedValue (drop 5 cs)"
          unfolding s processExpectedValue_def replaceSp_pipe by simp
        with ih None nt True show ?thesis by simp
      next
        case np: False
        from "2.IH" None nt np ne
        have ih: "processExpectedValue cs = expandTokens cs" by blast
        have "processExpectedValue (c # cs) = c # processExpectedValue cs"
        proof (cases "c = CHR ''<''")
          case False
          then show ?thesis
            by (simp add: processExpectedValue_def)
        next
          case c: True
          from nt c have nt': "\<not> startsWith cs ''tab>''" by simp
          from np c have np': "\<not> startsWith cs ''pipe>''" by simp
          from None c have none: "matchSp (CHR ''<'' # cs) = None" by simp
          have "startsWith (?tabs (replaceSp cs)) ''pipe>'' \<longleftrightarrow> startsWith cs ''pipe>''"
            using ne by (intro tabs_replaceSp_prefix) simp_all
          with np' tabs_replaceSp_lt [OF ne none nt', of "[CHR 0x09]"] c
          show ?thesis by (simp add: processExpectedValue_def)
        qed
        with ih None nt np show ?thesis by simp
      qed
    qed
  qed
qed

lemma matchSp_decimal:
  assumes "isDecimal ds"
  shows "matchSp (''<sp:'' @ ds @ ''>'' @ v) = Some (ds, v)"
proof -
  have "\<not> isDigit CHR ''>''" by code_simp
  with assms have "takeWhile isDigit (ds @ CHR ''>'' # v) = ds"
    and "dropWhile isDigit (ds @ CHR ''>'' # v) = CHR ''>'' # v"
    by (simp_all add: isDecimal_def list_all_iff takeWhile_append2 dropWhile_append2)
  with assms show ?thesis
    by (simp add: matchSp_def isDecimal_def)
qed

text \<open>
  Claim C8, as the code has it.  The function makes three passes, one for each token, each
  over the result of the one before.  A token at the head of the string is replaced: the
  digits \<open>N\<close> of \<open><sp:N>\<close> by \<open>N\<close> spaces, \<open><tab>\<close> by a tab, \<open><pipe>\<close> by a bar, and the rest
  is normalized behind it.  When no token \<open><sp:N>\<close> of the input has the value zero, the
  result is that of the single pass of the specification, in which nothing written is
  read again.  \<open><sp:>\<close> is left as it is.
\<close>

theorem value_normalizer:
  "(noEmptySp v \<longrightarrow> processExpectedValue v = expandTokens v) \<and>
   (isDecimal ds \<longrightarrow>
      processExpectedValue (''<sp:'' @ ds @ ''>'' @ v) =
        replicate (digitsToNat ds) CHR '' '' @ processExpectedValue v) \<and>
   processExpectedValue (''<tab>'' @ v) = CHR 0x09 # processExpectedValue v \<and>
   processExpectedValue (''<pipe>'' @ v) = CHR ''|'' # processExpectedValue v \<and>
   processExpectedValue ''<sp:>'' = ''<sp:>''"
proof (intro conjI impI)
  assume "noEmptySp v"
  then show "processExpectedValue v = expandTokens v"
    by (rule sequential_is_simultaneous)
next
  assume "isDecimal ds"
  then have "matchSp (''<sp:'' @ ds @ ''>'' @ v) = Some (ds, v)"
    by (rule matchSp_decimal)
  from tabs_replaceSp_sp [OF this, of "[CHR 0x09]"]
  show "processExpectedValue (''<sp:'' @ ds @ ''>'' @ v) =
      replicate (digitsToNat ds) CHR '' '' @ processExpectedValue v"
    by (simp add: processExpectedValue_def replaceAll_spaces)
next
  show "processExpectedValue (''<tab>'' @ v) = CHR 0x09 # processExpectedValue v"
    unfolding processExpectedValue_def tabs_replaceSp_tab by simp
next
  show "processExpectedValue (''<pipe>'' @ v) = CHR ''|'' # processExpectedValue v"
    unfolding processExpectedValue_def replaceSp_pipe by simp
next
  show "processExpectedValue ''<sp:>'' = ''<sp:>''"
    by code_simp
qed

text \<open>The claim as it was stated fails: the input below holds one token, \<open><sp:0>\<close>, and no
  token \<open><tab>\<close>.  Replacing the tokens of the input gives the five characters \<open><tab>\<close>;
  the code reads them again in its second pass and returns a tab.\<close>

theorem value_normalizer_counterexample:
  "processExpectedValue ''<ta<sp:0>b>'' = [CHR 0x09] \<and>
   expandTokens ''<ta<sp:0>b>'' = ''<tab>''"
  by code_simp

theorem value_normalizer_witness:
  "noEmptySp ''a<sp:3>b<tab>c<pipe>d<sp:>'' \<and> isDecimal ''12'' \<and>
   processExpectedValue ''a<sp:3>b<tab>c<pipe>d<sp:>'' = ''a   b'' @ [CHR 0x09] @ ''c|d<sp:>'' \<and>
   processExpectedValue ''<sp:12>x'' = replicate 12 CHR '' '' @ ''x''"
proof -
  let ?v = "''a<sp:3>b<tab>c<pipe>d<sp:>''"
  have h: "noEmptySp ?v" by code_simp
  have d: "isDecimal ''12''" by code_simp
  have e: "expandTokens ?v = ''a   b'' @ [CHR 0x09] @ ''c|d<sp:>''" by code_simp
  have n: "digitsToNat ''12'' = 12" by code_simp
  have x: "processExpectedValue ''x'' = ''x''" by code_simp
  from value_normalizer [of ?v] h have "processExpectedValue ?v = expandTokens ?v"
    by blast
  with e have r1: "processExpectedValue ?v = ''a   b'' @ [CHR 0x09] @ ''c|d<sp:>''"
    by simp
  from value_normalizer [where v = "''x''" and ds = "''12''"] d
  have "processExpectedValue (''<sp:'' @ ''12'' @ ''>'' @ ''x'') =
      replicate (digitsToNat ''12'') CHR '' '' @ processExpectedValue ''x''"
    by blast
  with n x have r2: "processExpectedValue ''<sp:12>x'' = replicate 12 CHR '' '' @ ''x''"
    by simp
  from h d r1 r2 show ?thesis by blast
qed

subsection \<open>Trees from indentation\<close>

lemma nearestShallower_None: "nearestShallower ds d k = None \<longleftrightarrow> (\<forall>m<k. d \<le> ds ! m)"
  by (induction k) (auto simp: less_Suc_eq)

lemma nearestShallower_Some:
  "nearestShallower ds d k = Some j \<longleftrightarrow>
     j < k \<and> ds ! j < d \<and> (\<forall>m. j < m \<and> m < k \<longrightarrow> d \<le> ds ! m)"
proof (induction k)
  case 0
  show ?case by simp
next
  case (Suc k)
  show ?case
  proof (cases "ds ! k < d")
    case True
    then show ?thesis
      by (auto simp: less_Suc_eq)
  next
    case False
    with Suc show ?thesis
      by (auto simp: less_Suc_eq)
  qed
qed

lemma nearestShallower_append:
  "k \<le> length ds \<Longrightarrow> nearestShallower (ds @ es) d k = nearestShallower ds d k"
  by (induction k) (simp_all add: nth_append)

lemma parentIndex_append:
  "k < length ds \<Longrightarrow> parentIndex (ds @ es) k = parentIndex ds k"
  by (simp add: parentIndex_def nearestShallower_append nth_append)

lemma parentIndex_less: "parentIndex ds k = Some j \<Longrightarrow> j < k"
  by (simp add: parentIndex_def nearestShallower_Some)

lemma popDeeper_eq: "popDeeper d st = dropWhile (\<lambda>x. d \<le> fst x) st"
  by (induction st) auto

lemma treeInv_empty: "treeInv [] emptyForest"
  by (simp add: treeInv_def emptyForest_def)

lemma filter_parent_snoc:
  "filter (\<lambda>k. parentIndex (ds @ [d]) k = x) [0..<Suc (length ds)] =
   filter (\<lambda>k. parentIndex ds k = x) [0..<length ds] @
   (if parentIndex (ds @ [d]) (length ds) = x then [length ds] else [])"
proof -
  have "filter (\<lambda>k. parentIndex (ds @ [d]) k = x) [0..<length ds] =
      filter (\<lambda>k. parentIndex ds k = x) [0..<length ds]"
    by (rule filter_cong) (simp_all add: parentIndex_append)
  then show ?thesis by simp
qed

lemma no_child_of_last:
  "filter (\<lambda>k. parentIndex ds k = Some (length ds)) [0..<length ds] = []"
  by (auto simp: filter_empty_conv dest: parentIndex_less)

text \<open>The stack after the pops, and the parent the new line gets.\<close>

lemma popped_parent:
  fixes stack :: "(nat \<times> nat) list" and ds :: "nat list"
  assumes addr: "\<forall>x\<in>set stack. snd x < length ds \<and> fst x = ds ! snd x"
    and sorted: "sorted_wrt (\<lambda>x y. fst y < fst x \<and> snd y < snd x) stack"
    and cover: "\<forall>m<length ds. \<exists>x\<in>set stack. m \<le> snd x \<and> fst x \<le> ds ! m"
  shows "parentIndex (ds @ [d]) (length ds) =
           (case popDeeper d stack of [] \<Rightarrow> None | x # _ \<Rightarrow> Some (snd x))"
    and "\<forall>y\<in>set (popDeeper d stack). fst y < d \<and> snd y < length ds \<and> fst y = ds ! snd y"
    and "sorted_wrt (\<lambda>x y. fst y < fst x \<and> snd y < snd x) (popDeeper d stack)"
    and "\<forall>m<length ds. ds ! m < d \<longrightarrow> (\<exists>x\<in>set (popDeeper d stack). m \<le> snd x \<and> fst x \<le> ds ! m)"
proof -
  define pre where "pre = takeWhile (\<lambda>x. d \<le> fst x) stack"
  define popped where "popped = popDeeper d stack"
  have popped: "popped = dropWhile (\<lambda>x. d \<le> fst x) stack"
    by (simp add: popped_def popDeeper_eq)
  have stack: "stack = pre @ popped"
    by (simp add: pre_def popped)
  have sub: "set popped \<subseteq> set stack"
    unfolding popped by (auto dest: set_dropWhileD)
  have pre: "\<forall>x\<in>set pre. d \<le> fst x"
    unfolding pre_def by (auto dest: set_takeWhileD)
  from sorted have sp: "sorted_wrt (\<lambda>x y. fst y < fst x \<and> snd y < snd x) popped"
    and cross: "\<forall>x\<in>set pre. \<forall>y\<in>set popped. fst y < fst x \<and> snd y < snd x"
    unfolding stack by (auto simp: sorted_wrt_append)
  have below: "\<forall>y\<in>set popped. fst y < d"
  proof (cases popped)
    case Nil
    then show ?thesis by simp
  next
    case (Cons h rest)
    then have "\<not> d \<le> fst h"
      using hd_dropWhile [of "\<lambda>x. d \<le> fst x" stack] popped by auto
    moreover from sp Cons have "\<forall>y\<in>set rest. fst y < fst h" by auto
    ultimately show ?thesis using Cons by auto
  qed
  have in_pre: "d \<le> ds ! m" if "m < length ds" and "\<forall>y\<in>set popped. snd y < m" for m
  proof -
    from cover that(1) obtain x where x: "x \<in> set stack" "m \<le> snd x" "fst x \<le> ds ! m"
      by blast
    with that(2) have "x \<in> set pre" unfolding stack by auto
    with pre x show ?thesis by auto
  qed
  show "\<forall>y\<in>set (popDeeper d stack). fst y < d \<and> snd y < length ds \<and> fst y = ds ! snd y"
    unfolding popped_def [symmetric] using below addr sub by auto
  show "sorted_wrt (\<lambda>x y. fst y < fst x \<and> snd y < snd x) (popDeeper d stack)"
    using sp by (simp add: popped_def)
  show "\<forall>m<length ds. ds ! m < d \<longrightarrow> (\<exists>x\<in>set (popDeeper d stack). m \<le> snd x \<and> fst x \<le> ds ! m)"
  proof (intro allI impI)
    fix m assume m: "m < length ds" "ds ! m < d"
    from cover m(1) obtain x where x: "x \<in> set stack" "m \<le> snd x" "fst x \<le> ds ! m"
      by blast
    with m(2) pre have "x \<notin> set pre" by auto
    with x have "x \<in> set popped" unfolding stack by auto
    with x show "\<exists>x\<in>set (popDeeper d stack). m \<le> snd x \<and> fst x \<le> ds ! m"
      unfolding popped_def [symmetric] by auto
  qed
  show "parentIndex (ds @ [d]) (length ds) =
      (case popDeeper d stack of [] \<Rightarrow> None | x # _ \<Rightarrow> Some (snd x))"
  proof (cases popped)
    case Nil
    then have "\<forall>m<length ds. d \<le> ds ! m"
      using in_pre by simp
    then have "parentIndex (ds @ [d]) (length ds) = None"
      by (simp add: parentIndex_def nearestShallower_None nth_append)
    with Nil show ?thesis by (simp add: popped_def)
  next
    case (Cons h rest)
    from Cons addr sub have h: "snd h < length ds" "fst h = ds ! snd h"
      by auto
    from Cons below have hd: "fst h < d" by simp
    from sp Cons have "\<forall>y\<in>set rest. snd y < snd h" by auto
    with Cons have "\<forall>y\<in>set popped. snd y \<le> snd h" by auto
    then have "d \<le> ds ! m" if "snd h < m" "m < length ds" for m
      using in_pre [of m] that by fastforce
    with h hd have "parentIndex (ds @ [d]) (length ds) = Some (snd h)"
      by (simp add: parentIndex_def nearestShallower_Some nth_append)
    with Cons show ?thesis by (simp add: popped_def)
  qed
qed


lemma treeInv_step:
  assumes "treeInv es st"
  shows "treeInv (es @ [(d, p)]) (insertNode d p st)"
proof -
  define f where "f = fst st"
  define stack where "stack = snd st"
  define ds where "ds = map fst es"
  define n where "n = length es"
  define ns where "ns = nodes f @ [\<lparr>payload = p, children = []\<rparr>]"
  have len_ds: "length ds = n" by (simp add: ds_def n_def)
  from assms have len: "length (nodes f) = n"
    and pay: "\<forall>k<n. payload (nodes f ! k) = snd (es ! k)"
    and chil: "\<forall>j<n. children (nodes f ! j) = filter (\<lambda>k. parentIndex ds k = Some j) [0..<n]"
    and rts: "roots f = filter (\<lambda>k. parentIndex ds k = None) [0..<n]"
    and addr: "\<forall>x\<in>set stack. snd x < length ds \<and> fst x = ds ! snd x"
    and sorted: "sorted_wrt (\<lambda>x y. fst y < fst x \<and> snd y < snd x) stack"
    and cover: "\<forall>m<length ds. \<exists>x\<in>set stack. m \<le> snd x \<and> fst x \<le> ds ! m"
    unfolding treeInv_def f_def stack_def ds_def n_def length_map by blast+
  note pp = popped_parent [OF addr sorted cover, of d]
  have ds': "map fst (es @ [(d, p)]) = ds @ [d]" by (simp add: ds_def)
  have len': "length (es @ [(d, p)]) = Suc n" by (simp add: n_def)
  have es_old: "(es @ [(d, p)]) ! k = es ! k" if "k < n" for k
    using that by (simp add: nth_append n_def)
  have es_new: "(es @ [(d, p)]) ! n = (d, p)"
    by (simp add: n_def)
  have ns_old: "ns ! k = nodes f ! k" if "k < n" for k
    using that len by (simp add: ns_def nth_append)
  have ns_new: "ns ! n = \<lparr>payload = p, children = []\<rparr>"
    unfolding ns_def len [symmetric] by simp
  have chil_new: "filter (\<lambda>k. parentIndex (ds @ [d]) k = Some j) [0..<Suc n] =
      filter (\<lambda>k. parentIndex ds k = Some j) [0..<n] @
      (if parentIndex (ds @ [d]) n = Some j then [n] else [])" for j
    using filter_parent_snoc [of ds d "Some j"] by (simp add: len_ds)
  have rts_new: "filter (\<lambda>k. parentIndex (ds @ [d]) k = None) [0..<Suc n] =
      filter (\<lambda>k. parentIndex ds k = None) [0..<n] @
      (if parentIndex (ds @ [d]) n = None then [n] else [])"
    using filter_parent_snoc [of ds d None] by (simp add: len_ds)
  have last_none: "filter (\<lambda>k. parentIndex ds k = Some n) [0..<n] = []"
    using no_child_of_last [of ds] by (simp add: len_ds)
  have not_self: "parentIndex (ds @ [d]) n \<noteq> Some n"
    by (auto dest: parentIndex_less)
  have cover': "\<exists>x\<in>set ((d, n) # popDeeper d stack). m \<le> snd x \<and> fst x \<le> (ds @ [d]) ! m"
    if "m < Suc n" for m
  proof (cases "m < n \<and> ds ! m < d")
    case True
    with pp(4) len_ds show ?thesis by (auto simp: nth_append)
  next
    case False
    with that len_ds show ?thesis by (auto simp: nth_append not_less less_Suc_eq)
  qed
  have addr': "\<forall>x\<in>set ((d, n) # popDeeper d stack).
      snd x < Suc n \<and> fst x = (ds @ [d]) ! snd x"
    using pp(2) len_ds by (auto simp: nth_append)
  have sorted': "sorted_wrt (\<lambda>x y. fst y < fst x \<and> snd y < snd x) ((d, n) # popDeeper d stack)"
    using pp(2,3) len_ds by auto
  show ?thesis
  proof (cases "popDeeper d stack")
    case Nil
    with pp(1) have par: "parentIndex (ds @ [d]) n = None" by (simp add: len_ds)
    from Nil have ins: "insertNode d p st = (\<lparr>nodes = ns, roots = roots f @ [n]\<rparr>, [(d, n)])"
      by (simp add: insertNode_def Let_def f_def stack_def ns_def len [unfolded f_def])
    have "children (ns ! j) = filter (\<lambda>k. parentIndex (ds @ [d]) k = Some j) [0..<Suc n]"
      if "j < Suc n" for j
      unfolding chil_new using that chil len last_none par
      by (auto simp: ns_def nth_append less_Suc_eq)
    moreover have "payload (ns ! k) = snd ((es @ [(d, p)]) ! k)" if "k < Suc n" for k
    proof (cases "k < n")
      case True
      with pay show ?thesis by (simp add: es_old ns_old)
    next
      case False
      with that have "k = n" by simp
      then show ?thesis by (simp add: es_new ns_new)
    qed
    moreover have "roots f @ [n] = filter (\<lambda>k. parentIndex (ds @ [d]) k = None) [0..<Suc n]"
      unfolding rts_new using rts par by simp
    moreover have "length ns = Suc n" by (simp add: ns_def len)
    ultimately show ?thesis
      using addr' sorted' cover' Nil
      unfolding treeInv_def ins ds' len' by simp
  next
    case (Cons h rest)
    obtain dt t where h: "h = (dt, t)" by (cases h)
    from pp(1) Cons h have par: "parentIndex (ds @ [d]) n = Some t" by (simp add: len_ds)
    from pp(2) Cons h len_ds have t: "t < n" by auto
    define ns' where "ns' = ns[t := (ns ! t)\<lparr>children := children (ns ! t) @ [n]\<rparr>]"
    from Cons h have ins: "insertNode d p st =
        (\<lparr>nodes = ns', roots = roots f\<rparr>, (d, n) # popDeeper d stack)"
      by (simp add: insertNode_def Let_def f_def stack_def ns_def ns'_def len [unfolded f_def])
    have lns: "length ns = Suc n" by (simp add: ns_def len)
    have "children (ns' ! j) = filter (\<lambda>k. parentIndex (ds @ [d]) k = Some j) [0..<Suc n]"
      if "j < Suc n" for j
    proof (cases "j = t")
      case True
      with t lns chil len par show ?thesis
        unfolding chil_new by (simp add: ns'_def ns_def nth_append)
    next
      case False
      with that t lns chil len par last_none show ?thesis
        unfolding chil_new by (auto simp: ns'_def ns_def nth_append less_Suc_eq)
    qed
    moreover have "payload (ns' ! k) = snd ((es @ [(d, p)]) ! k)" if "k < Suc n" for k
    proof (cases "k < n")
      case True
      with pay lns t show ?thesis
        by (simp add: es_old ns_old ns'_def nth_list_update)
    next
      case False
      with that have "k = n" by simp
      with lns t show ?thesis
        by (simp add: es_new ns_new ns'_def nth_list_update)
    qed
    moreover have "roots f = filter (\<lambda>k. parentIndex (ds @ [d]) k = None) [0..<Suc n]"
      unfolding rts_new using rts par by simp
    moreover have "length ns' = Suc n" by (simp add: ns'_def lns)
    ultimately show ?thesis
      using addr' sorted' cover'
      unfolding treeInv_def ins ds' len' by simp
  qed
qed

lemma buildTree_snoc:
  "buildTree (es @ [(d, p)]) = insertNode d p (buildTree es)"
  by (simp add: buildTree_def)

lemma treeInv_buildTree: "treeInv es (buildTree es)"
proof (induction es rule: rev_induct)
  case Nil
  show ?case by (simp add: buildTree_def treeInv_empty)
next
  case (snoc e es)
  obtain d p where "e = (d, p)" by (cases e)
  with snoc show ?case by (simp add: buildTree_snoc treeInv_step)
qed

lemma parentIndex_Some:
  "parentIndex ds k = Some j \<longleftrightarrow>
     j < k \<and> ds ! j < ds ! k \<and> (\<forall>m. j < m \<and> m < k \<longrightarrow> ds ! k \<le> ds ! m)"
  by (simp add: parentIndex_def nearestShallower_Some)

lemma parentIndex_None: "parentIndex ds k = None \<longleftrightarrow> (\<forall>m<k. ds ! k \<le> ds ! m)"
  by (simp add: parentIndex_def nearestShallower_None)

lemma parentIndex_sibling:
  assumes "j < k" and "ds ! j = ds ! k" and "\<forall>m. j < m \<and> m < k \<longrightarrow> ds ! k \<le> ds ! m"
  shows "parentIndex ds j = parentIndex ds k"
proof (cases "parentIndex ds j")
  case None
  then have "\<forall>m<j. ds ! j \<le> ds ! m" by (simp add: parentIndex_None)
  with assms have "\<forall>m<k. ds ! k \<le> ds ! m"
    by (metis le_refl linorder_neqE_nat)
  then have "parentIndex ds k = None" by (simp add: parentIndex_None)
  with None show ?thesis by simp
next
  case (Some i)
  then have i: "i < j" "ds ! i < ds ! j" "\<forall>m. i < m \<and> m < j \<longrightarrow> ds ! j \<le> ds ! m"
    by (simp_all add: parentIndex_Some)
  have "ds ! k \<le> ds ! m" if "i < m" "m < k" for m
  proof -
    consider "m < j" | "m = j" | "j < m" by (rule linorder_cases)
    then show ?thesis using that i assms by cases auto
  qed
  with i assms have "parentIndex ds k = Some i"
    by (simp add: parentIndex_Some)
  with Some show ?thesis by simp
qed

lemma scopeLoop_eq:
  "scopeLoop scopes content (assertions, tree) =
     (assertions @ map snd (scopeEntries scopes content),
      foldl (\<lambda>st (depth, p). insertNode depth p st) tree (scopeEntries scopes content))"
proof (induction content arbitrary: assertions tree)
  case Nil
  show ?case by (simp add: scopeEntries_def List.map_filter_simps)
next
  case (Cons raw content)
  show ?case
  proof (cases "parseScopeLine scopes raw")
    case None
    with Cons show ?thesis by (simp add: scopeEntries_def List.map_filter_simps)
  next
    case (Some e)
    obtain depth a where "e = (depth, a)" by (cases e)
    with Some Cons show ?thesis by (simp add: scopeEntries_def List.map_filter_simps)
  qed
qed

lemma symbolLoop_eq:
  "symbolLoop content tree =
     foldl (\<lambda>st (depth, p). insertNode depth p st) tree (symbolEntries content)"
proof (induction content arbitrary: tree)
  case Nil
  show ?case by (simp add: symbolEntries_def List.map_filter_simps)
next
  case (Cons raw content)
  show ?case
  proof (cases "parseSymbolLine raw")
    case None
    with Cons show ?thesis by (simp add: symbolEntries_def List.map_filter_simps)
  next
    case (Some e)
    obtain depth a where "e = (depth, a)" by (cases e)
    with Some Cons show ?thesis by (simp add: symbolEntries_def List.map_filter_simps)
  qed
qed

text \<open>
  Claim C6, as the code has it.  The tree of a scope block and the tree of a symbols block
  are the tree that the builder makes of the lines of the block that give a node.  In that
  tree the node at address \<open>k\<close> is line \<open>k\<close>.  The children of a node are, in their order,
  the lines whose parent it is, and the roots are the lines without a parent, where the
  parent of a line is the nearest line before it that is strictly shallower.  A line is
  then a sibling of the nearest line before it of its own depth when no strictly shallower
  line stands between the two: both have the same parent, or both are roots.
\<close>

theorem indentation_tree:
  "(decodeScope scopes content = Inr (ScopeExpectation assertions tree) \<longrightarrow>
      tree = fst (buildTree (scopeEntries scopes content)) \<and>
      assertions = map snd (scopeEntries scopes content)) \<and>
   decodeSymbols content = SymbolsExpectation (fst (buildTree (symbolEntries content))) \<and>
   length (nodes (fst (buildTree es))) = length es \<and>
   (\<forall>k<length es. payload (nodes (fst (buildTree es)) ! k) = snd (es ! k)) \<and>
   (\<forall>j<length es. children (nodes (fst (buildTree es)) ! j) =
      filter (\<lambda>k. parentIndex (map fst es) k = Some j) [0..<length es]) \<and>
   roots (fst (buildTree es)) = filter (\<lambda>k. parentIndex (map fst es) k = None) [0..<length es] \<and>
   (\<forall>ds k j. parentIndex ds k = Some j \<longleftrightarrow>
      j < k \<and> ds ! j < ds ! k \<and> (\<forall>m. j < m \<and> m < k \<longrightarrow> ds ! k \<le> ds ! m)) \<and>
   (\<forall>ds k. parentIndex ds k = None \<longleftrightarrow> (\<forall>m<k. ds ! k \<le> ds ! m)) \<and>
   (\<forall>ds j k. j < k \<and> ds ! j = ds ! k \<and> (\<forall>m. j < m \<and> m < k \<longrightarrow> ds ! k \<le> ds ! m) \<longrightarrow>
      parentIndex ds j = parentIndex ds k)"
proof (intro conjI impI allI)
  let ?E = "scopeEntries scopes content"
  have sl: "scopeLoop scopes content ([], emptyForest) = (map snd ?E, buildTree ?E)"
    by (simp add: scopeLoop_eq buildTree_def)
  have dec: "decodeScope scopes content =
      (if map snd ?E = [] \<and> hasMeaningfulContent content then Inl MalformedScopeBlock
       else Inr (ScopeExpectation (map snd ?E) (fst (buildTree ?E))))"
    unfolding decodeScope_def sl by (simp add: case_prod_beta)
  assume a: "decodeScope scopes content = Inr (ScopeExpectation assertions tree)"
  from a dec show "tree = fst (buildTree ?E)"
    by (simp split: if_splits)
  from a dec show "assertions = map snd ?E"
    by (simp split: if_splits)
next
  show "decodeSymbols content = SymbolsExpectation (fst (buildTree (symbolEntries content)))"
    by (simp add: decodeSymbols_def symbolLoop_eq buildTree_def)
next
  have inv: "treeInv es (buildTree es)" by (rule treeInv_buildTree)
  from inv show "length (nodes (fst (buildTree es))) = length es"
    unfolding treeInv_def by (elim conjE)
  from inv have "\<forall>k<length es. payload (nodes (fst (buildTree es)) ! k) = snd (es ! k)"
    unfolding treeInv_def by (elim conjE)
  then show "payload (nodes (fst (buildTree es)) ! k) = snd (es ! k)" if "k < length es" for k
    using that by simp
  from inv have "\<forall>j<length es. children (nodes (fst (buildTree es)) ! j) =
      filter (\<lambda>k. parentIndex (map fst es) k = Some j) [0..<length es]"
    unfolding treeInv_def by (elim conjE)
  then show "children (nodes (fst (buildTree es)) ! j) =
      filter (\<lambda>k. parentIndex (map fst es) k = Some j) [0..<length es]" if "j < length es" for j
    using that by simp
  from inv show "roots (fst (buildTree es)) =
      filter (\<lambda>k. parentIndex (map fst es) k = None) [0..<length es]"
    unfolding treeInv_def by (elim conjE)
next
  fix ds :: "nat list" and k j
  show "parentIndex ds k = Some j \<longleftrightarrow>
      j < k \<and> ds ! j < ds ! k \<and> (\<forall>m. j < m \<and> m < k \<longrightarrow> ds ! k \<le> ds ! m)"
    by (rule parentIndex_Some)
next
  fix ds :: "nat list" and k
  show "parentIndex ds k = None \<longleftrightarrow> (\<forall>m<k. ds ! k \<le> ds ! m)"
    by (rule parentIndex_None)
next
  fix ds :: "nat list" and j k
  assume "j < k \<and> ds ! j = ds ! k \<and> (\<forall>m. j < m \<and> m < k \<longrightarrow> ds ! k \<le> ds ! m)"
  then show "parentIndex ds j = parentIndex ds k"
    by (intro parentIndex_sibling) simp_all
qed

text \<open>The claim as it was stated fails.  Below, the line \<open>d\<close> has the depth of the line \<open>b\<close>,
  the nearest line before it of that depth; yet \<open>b\<close> is a child of \<open>a\<close> and \<open>d\<close> a child of
  \<open>c\<close>, the shallower line between them.  And the lines behind \<open>a\<close> that are deeper than \<open>a\<close>
  are \<open>b\<close>, \<open>c\<close> and \<open>d\<close>, while the children of \<open>a\<close> are \<open>b\<close> and \<open>c\<close> only.\<close>

theorem indentation_tree_counterexample:
  "decodeScope Map.empty [''a => s'', ''    b => s'', ''  c => s'', ''    d => s''] =
     Inr (ScopeExpectation
       [\<lparr>text' = ''a'', mustContain = [''s''], mustNotContain = []\<rparr>,
        \<lparr>text' = ''b'', mustContain = [''s''], mustNotContain = []\<rparr>,
        \<lparr>text' = ''c'', mustContain = [''s''], mustNotContain = []\<rparr>,
        \<lparr>text' = ''d'', mustContain = [''s''], mustNotContain = []\<rparr>]
       \<lparr>nodes =
          [\<lparr>payload = \<lparr>text' = ''a'', mustContain = [''s''], mustNotContain = []\<rparr>,
            children = [1, 2]\<rparr>,
           \<lparr>payload = \<lparr>text' = ''b'', mustContain = [''s''], mustNotContain = []\<rparr>,
            children = []\<rparr>,
           \<lparr>payload = \<lparr>text' = ''c'', mustContain = [''s''], mustNotContain = []\<rparr>,
            children = [3]\<rparr>,
           \<lparr>payload = \<lparr>text' = ''d'', mustContain = [''s''], mustNotContain = []\<rparr>,
            children = []\<rparr>],
         roots = [0]\<rparr>)"
  by code_simp

theorem indentation_tree_witness:
  "symbolEntries [''- A (0:0-9:0)'', ''    - B (1:0-2:0)'', ''  - C (3:0-5:0)'', ''# note'',
                  ''    - D (4:0-5:0)'', ''- E (6:0-9:0)''] =
     [(0, \<lparr>symbol_name = ''A'', symbol_startLine = Num 0, symbol_startChar = Num 0,
            symbol_endLine = Num 9, symbol_endChar = Num 0\<rparr>),
      (4, \<lparr>symbol_name = ''B'', symbol_startLine = Num 1, symbol_startChar = Num 0,
            symbol_endLine = Num 2, symbol_endChar = Num 0\<rparr>),
      (2, \<lparr>symbol_name = ''C'', symbol_startLine = Num 3, symbol_startChar = Num 0,
            symbol_endLine = Num 5, symbol_endChar = Num 0\<rparr>),
      (4, \<lparr>symbol_name = ''D'', symbol_startLine = Num 4, symbol_startChar = Num 0,
            symbol_endLine = Num 5, symbol_endChar = Num 0\<rparr>),
      (0, \<lparr>symbol_name = ''E'', symbol_startLine = Num 6, symbol_startChar = Num 0,
            symbol_endLine = Num 9, symbol_endChar = Num 0\<rparr>)] \<and>
   roots (fst (buildTree (symbolEntries
     [''- A (0:0-9:0)'', ''    - B (1:0-2:0)'', ''  - C (3:0-5:0)'', ''# note'',
      ''    - D (4:0-5:0)'', ''- E (6:0-9:0)'']))) = [0, 4] \<and>
   children (nodes (fst (buildTree (symbolEntries
     [''- A (0:0-9:0)'', ''    - B (1:0-2:0)'', ''  - C (3:0-5:0)'', ''# note'',
      ''    - D (4:0-5:0)'', ''- E (6:0-9:0)'']))) ! 0) = [1, 2] \<and>
   children (nodes (fst (buildTree (symbolEntries
     [''- A (0:0-9:0)'', ''    - B (1:0-2:0)'', ''  - C (3:0-5:0)'', ''# note'',
      ''    - D (4:0-5:0)'', ''- E (6:0-9:0)'']))) ! 2) = [3]"
proof -
  let ?content = "[''- A (0:0-9:0)'', ''    - B (1:0-2:0)'', ''  - C (3:0-5:0)'', ''# note'',
                   ''    - D (4:0-5:0)'', ''- E (6:0-9:0)'']"
  let ?es = "symbolEntries ?content"
  have es: "?es =
     [(0, \<lparr>symbol_name = ''A'', symbol_startLine = Num 0, symbol_startChar = Num 0,
            symbol_endLine = Num 9, symbol_endChar = Num 0\<rparr>),
      (4, \<lparr>symbol_name = ''B'', symbol_startLine = Num 1, symbol_startChar = Num 0,
            symbol_endLine = Num 2, symbol_endChar = Num 0\<rparr>),
      (2, \<lparr>symbol_name = ''C'', symbol_startLine = Num 3, symbol_startChar = Num 0,
            symbol_endLine = Num 5, symbol_endChar = Num 0\<rparr>),
      (4, \<lparr>symbol_name = ''D'', symbol_startLine = Num 4, symbol_startChar = Num 0,
            symbol_endLine = Num 5, symbol_endChar = Num 0\<rparr>),
      (0, \<lparr>symbol_name = ''E'', symbol_startLine = Num 6, symbol_startChar = Num 0,
            symbol_endLine = Num 9, symbol_endChar = Num 0\<rparr>)]"
    by code_simp
  have len: "length ?es = 5" and ds: "map fst ?es = [0, 4, 2, 4, 0]"
    unfolding es by simp_all
  have r: "filter (\<lambda>k. parentIndex [0, 4, 2, 4, 0] k = None) [0..<5] = [0, 4]"
    by code_simp
  have c0: "filter (\<lambda>k. parentIndex [0, 4, 2, 4, 0] k = Some 0) [0..<5] = [1, 2]"
    by code_simp
  have c2: "filter (\<lambda>k. parentIndex [0, 4, 2, 4, 0] k = Some 2) [0..<5] = [3]"
    by code_simp
  note t = indentation_tree [where es = ?es]
  from t have "roots (fst (buildTree ?es)) =
      filter (\<lambda>k. parentIndex (map fst ?es) k = None) [0..<length ?es]"
    by blast
  then have roots: "roots (fst (buildTree ?es)) = [0, 4]"
    unfolding len ds r .
  from t have ch: "\<forall>j<length ?es. children (nodes (fst (buildTree ?es)) ! j) =
      filter (\<lambda>k. parentIndex (map fst ?es) k = Some j) [0..<length ?es]"
    by blast
  from ch have "children (nodes (fst (buildTree ?es)) ! 0) =
      filter (\<lambda>k. parentIndex (map fst ?es) k = Some 0) [0..<length ?es]"
    unfolding len by simp
  then have child0: "children (nodes (fst (buildTree ?es)) ! 0) = [1, 2]"
    unfolding len ds c0 .
  from ch have "children (nodes (fst (buildTree ?es)) ! 2) =
      filter (\<lambda>k. parentIndex (map fst ?es) k = Some 2) [0..<length ?es]"
    unfolding len by simp
  then have child2: "children (nodes (fst (buildTree ?es)) ! 2) = [3]"
    unfolding len ds c2 .
  from es roots child0 child2 show ?thesis by blast
qed

end
